theory Spec2Isabelle
  imports Main "HOL-Library.Sublist"
begin

section \<open>Protocol data model (a2a/common/types.py)\<close>

text \<open>
  The pydantic models of \<^verbatim>\<open>types.py\<close>. Every \<^verbatim>\<open>metadata\<close> dictionary and the
  \<^verbatim>\<open>authentication\<close> blob are opaque payloads that no operation below inspects; they
  are left out. The payload of a file part and of a data part is kept as an opaque string.
  A Python \<^verbatim>\<open>str\<close> is modelled by the bytes of its UTF-8 encoding: equality,
  concatenation, \<^verbatim>\<open>in\<close> between strings (\<^const>\<open>sublist\<close>), \<^verbatim>\<open>startswith\<close>
  (\<^const>\<open>prefix\<close>) and the splitting at an ASCII separator are the same on a text and on
  its bytes.
\<close>

datatype TaskState =
  SUBMITTED | WORKING | INPUT_REQUIRED | COMPLETED | CANCELED | FAILED | UNKNOWN

datatype Part = TextPart string | FilePart string | DataPart string

record Message =
  m_role :: string
  m_parts :: "Part list"

record TaskStatus =
  s_state :: TaskState
  s_message :: "Message option"
  s_timestamp :: string

record Artifact =
  a_name :: "string option"
  a_description :: "string option"
  a_parts :: "Part list"
  a_index :: int
  a_append :: "bool option"
  a_lastChunk :: "bool option"

record Task =
  t_id :: string
  t_sessionId :: "string option"
  t_status :: TaskStatus
  t_artifacts :: "Artifact list option"
  t_history :: "Message list option"

record PushNotificationConfig =
  p_url :: string
  p_token :: "string option"

text \<open>\<^verbatim>\<open>TaskStatusUpdateEvent(id, status, final)\<close> and
  \<^verbatim>\<open>TaskArtifactUpdateEvent(id, artifact, final)\<close>.\<close>

datatype Event =
  TaskStatusUpdateEvent string TaskStatus bool
| TaskArtifactUpdateEvent string Artifact bool

fun final :: "Event \<Rightarrow> bool" where
  "final (TaskStatusUpdateEvent i s f) = f"
| "final (TaskArtifactUpdateEvent i a f) = f"

record TaskSendParams =
  sp_id :: string
  sp_historyLength :: "int option"
  sp_sessionId :: "string option"
  sp_message :: Message
  sp_pushNotification :: "PushNotificationConfig option"

text \<open>
  Python exceptions, each with the text \<^verbatim>\<open>str(e)\<close> gives. \<open>BaseException\<close> stands
  for the exceptions that are no instance of \<^verbatim>\<open>Exception\<close>
  (\<^verbatim>\<open>asyncio.CancelledError\<close>, \<^verbatim>\<open>KeyboardInterrupt\<close>, \<^verbatim>\<open>SystemExit\<close>), which a clause
  \<^verbatim>\<open>except Exception\<close> lets through: \<open>is_exception\<close> is
  \<^verbatim>\<open>isinstance(e, Exception)\<close>.
\<close>

datatype Error =
  ValueError string
| KeyError string
| NameError string
| AttributeError string
| BaseException string

fun str :: "Error \<Rightarrow> string" where
  "str (ValueError s) = s"
| "str (KeyError s) = [CHR 0x27] @ s @ [CHR 0x27]"
| "str (NameError s) = s"
| "str (AttributeError s) = s"
| "str (BaseException s) = s"

fun is_exception :: "Error \<Rightarrow> bool" where
  "is_exception (BaseException s) = False"
| "is_exception (ValueError s) = True"
| "is_exception (KeyError s) = True"
| "is_exception (NameError s) = True"
| "is_exception (AttributeError s) = True"

section \<open>Task manager (a2a/common/server.py, class InMemoryTaskManager)\<close>

text \<open>
  How an awaited processing callback ends: it returns a task, it raises an instance of
  \<^verbatim>\<open>Exception\<close> whose text is the string, or the await ends with an exception that is
  no instance of \<^verbatim>\<open>Exception\<close> (the request is cancelled, the callback exits the
  interpreter).
\<close>

datatype Outcome = Returned Task | Raised string | Interrupted string

text \<open>
  The manager object. The dictionaries are maps. An \<^verbatim>\<open>asyncio.Queue\<close> is an object
  shared between the subscriber list of its task and the generator that reads it, so the
  queues live in a store of their own: \<open>task_streams\<close> holds queue numbers,
  \<open>next_queue\<close> is the number the next \<^verbatim>\<open>asyncio.Queue()\<close> gets, and \<open>queues\<close>
  holds every event put on each queue, oldest first. The one reader of a queue is the
  generator that made it; it counts the events it has taken, and the content of the
  \<^verbatim>\<open>asyncio.Queue\<close> is the rest. The wall clock is an input: \<open>clock n\<close> is what the
  \<open>n\<close>-th call of \<^verbatim>\<open>_get_iso_timestamp\<close> reads, \<open>ticks\<close> counts the calls made.

  The parts lists of the artifacts are shared and changed in place:
  \<^verbatim>\<open>existing.parts.extend(artifact.parts)\<close> extends the list of a stored artifact, and
  the event of an update holds the artifact object it was made with, so an event that
  waits in a queue shows the parts its artifact has when the event is taken and written
  out. The parts lists therefore live in a store. \<open>heap\<close> maps an address to the
  content of the parts list at that address and \<open>next_address\<close> is the next free
  address; \<open>artifact_refs\<close> gives, for a task id, the addresses of the parts lists of
  the artifacts of the stored task, in the order of its artifact list; \<open>queue_refs q i\<close>
  is the address of the parts list of the artifact in the \<open>i\<close>-th event put on queue
  \<open>q\<close> (\<open>None\<close> for a status event). The tasks in \<open>tasks\<close> carry the current content
  of their parts lists, and \<open>queues\<close> the events as they were put. Callers hand over
  objects of their own, as the agents of this repository do: every artifact passed to
  \<^verbatim>\<open>send_artifact_update\<close> and every task a callback returns is a new object.
\<close>

record Manager =
  tasks :: "string \<rightharpoonup> Task"
  push_notifications :: "string \<rightharpoonup> PushNotificationConfig"
  task_processor :: "(TaskSendParams \<Rightarrow> Outcome) option"
  supports_streaming :: bool
  supports_push_notifications :: bool
  task_streams :: "string \<rightharpoonup> nat list"
  queues :: "nat \<Rightarrow> Event list"
  next_queue :: nat
  clock :: "nat \<Rightarrow> string"
  ticks :: nat
  heap :: "nat \<Rightarrow> Part list"
  next_address :: nat
  artifact_refs :: "string \<Rightarrow> nat list"
  queue_refs :: "nat \<Rightarrow> nat \<Rightarrow> nat option"

definition get_iso_timestamp :: "Manager \<Rightarrow> string \<times> Manager" where
  "get_iso_timestamp m = (clock m (ticks m), m\<lparr>ticks := Suc (ticks m)\<rparr>)"

text \<open>\<^verbatim>\<open>state in [COMPLETED, CANCELED, FAILED]\<close>\<close>

definition is_final_state :: "TaskState \<Rightarrow> bool" where
  "is_final_state s = (s \<in> set [COMPLETED, CANCELED, FAILED])"

text \<open>
  \<^verbatim>\<open>queue.put_nowait(update)\<close> and the loop over the queues of one task. \<open>ref\<close> is
  the address of the parts list of the artifact in the event, \<open>None\<close> for a status
  event.
\<close>

definition put_nowait :: "Manager \<Rightarrow> nat \<Rightarrow> Event \<Rightarrow> nat option \<Rightarrow> Manager" where
  "put_nowait m q update ref =
     m\<lparr>queues := (queues m)(q := queues m q @ [update]),
       queue_refs := (queue_refs m)(q := (queue_refs m q)(length (queues m q) := ref))\<rparr>"

definition put_all :: "Manager \<Rightarrow> nat list \<Rightarrow> Event \<Rightarrow> nat option \<Rightarrow> Manager" where
  "put_all m qs update ref = foldl (\<lambda>m' q. put_nowait m' q update ref) m qs"

definition send_status_update :: "Manager \<Rightarrow> Task \<Rightarrow> Manager" where
  "send_status_update m task =
     (if \<not> supports_streaming m then m
      else case task_streams m (t_id task) of
        None \<Rightarrow> m
      | Some qs \<Rightarrow>
          put_all m qs
            (TaskStatusUpdateEvent (t_id task) (t_status task)
               (is_final_state (s_state (t_status task)))) None)"

text \<open>
  \<^verbatim>\<open>create_task\<close> awaits the processing callback once. Other requests, and the callback
  itself through \<^verbatim>\<open>BaseAgent.add_artifact\<close>, use the manager while it waits, so the
  method is modelled in the two halves the await separates. \<open>create_task_begin\<close> is
  lines 94-127 (the store of the SUBMITTED task, the reset of its subscriber list, the
  push configuration, and with a callback the WORKING status and its event). The new
  task has a new, empty artifact list.
\<close>

definition create_task_begin :: "Manager \<Rightarrow> TaskSendParams \<Rightarrow> Manager" where
  "create_task_begin m params =
     (let task_id = sp_id params;
          (ts, m1) = get_iso_timestamp m;
          task = \<lparr>t_id = task_id, t_sessionId = sp_sessionId params,
                  t_status = \<lparr>s_state = SUBMITTED, s_message = Some (sp_message params),
                              s_timestamp = ts\<rparr>,
                  t_artifacts = Some [], t_history = None\<rparr>;
          m2 = m1\<lparr>tasks := (tasks m1)(task_id \<mapsto> task),
                 artifact_refs := (artifact_refs m1)(task_id := [])\<rparr>;
          m3 = (if supports_streaming m2
                then m2\<lparr>task_streams := (task_streams m2)(task_id \<mapsto> [])\<rparr> else m2);
          m4 = (case sp_pushNotification params of
                  Some cfg \<Rightarrow>
                    if supports_push_notifications m3
                    then m3\<lparr>push_notifications := (push_notifications m3)(task_id \<mapsto> cfg)\<rparr>
                    else m3
                | None \<Rightarrow> m3)
      in case task_processor m4 of
           None \<Rightarrow> m4
         | Some process \<Rightarrow>
             let (ts', m5) = get_iso_timestamp m4;
                 task' = task\<lparr>t_status := \<lparr>s_state = WORKING, s_message = None,
                                             s_timestamp = ts'\<rparr>\<rparr>;
                 m6 = m5\<lparr>tasks := (tasks m5)(task_id \<mapsto> task')\<rparr>
             in send_status_update m6 task')"

text \<open>
  \<open>create_task_finish\<close> is lines 129-149, entered when the callback has ended. The local
  variable \<^verbatim>\<open>task\<close> is the object \<^verbatim>\<open>create_task\<close> stored under \<^verbatim>\<open>task_id\<close>; a task
  id is created once, so the entry still holds that object and the model reads it from
  there. \<^verbatim>\<open>self.tasks[task_id]\<close> raises \<^verbatim>\<open>KeyError\<close> on a missing key. The clause
  is \<^verbatim>\<open>except Exception\<close>: any other exception leaves the method as it came, with
  nothing done. An \<open>Inl\<close> result means that the manager is as it was. The task a
  callback returns comes with artifact objects of its own: \<open>store_artifacts\<close> gives
  their parts lists the next free addresses.
\<close>

definition store_artifacts :: "Manager \<Rightarrow> string \<Rightarrow> Artifact list \<Rightarrow> Manager" where
  "store_artifacts m task_id artifacts =
     (let x = next_address m; n = length artifacts
      in m\<lparr>heap := (\<lambda>y. if x \<le> y \<and> y < x + n then a_parts (artifacts ! (y - x))
                          else heap m y),
           next_address := x + n,
           artifact_refs := (artifact_refs m)(task_id := [x ..< x + n])\<rparr>)"

definition create_task_finish ::
  "Manager \<Rightarrow> TaskSendParams \<Rightarrow> Outcome \<Rightarrow> Error + Task \<times> Manager" where
  "create_task_finish m params outcome =
     (let task_id = sp_id params in
      case outcome of
        Returned updated_task \<Rightarrow>
          let m1 = store_artifacts (m\<lparr>tasks := (tasks m)(task_id \<mapsto> updated_task)\<rparr>)
                     task_id
                     (case t_artifacts updated_task of None \<Rightarrow> [] | Some xs \<Rightarrow> xs);
              m2 = send_status_update m1 updated_task
          in (case tasks m2 task_id of
                None \<Rightarrow> Inl (KeyError task_id)
              | Some stored \<Rightarrow> Inr (stored, m2))
      | Raised e \<Rightarrow>
          (case tasks m task_id of
             None \<Rightarrow> Inl (KeyError task_id)
           | Some task \<Rightarrow>
               let error_message = \<lparr>m_role = ''agent'',
                      m_parts = [TextPart (''Task processing failed: '' @ e)]\<rparr>;
                   (ts, m1) = get_iso_timestamp m;
                   task' = task\<lparr>t_status := \<lparr>s_state = FAILED,
                              s_message = Some error_message, s_timestamp = ts\<rparr>\<rparr>;
                   m2 = m1\<lparr>tasks := (tasks m1)(task_id \<mapsto> task')\<rparr>;
                   m3 = send_status_update m2 task'
               in (case tasks m3 task_id of
                     None \<Rightarrow> Inl (KeyError task_id)
                   | Some stored \<Rightarrow> Inr (stored, m3)))
      | Interrupted e \<Rightarrow> Inl (BaseException e))"

definition get_task :: "Manager \<Rightarrow> string \<Rightarrow> int option \<Rightarrow> Error + Task" where
  "get_task m task_id history_length =
     (case tasks m task_id of
        None \<Rightarrow> Inl (ValueError (''Task not found: '' @ task_id))
      | Some task \<Rightarrow> Inr task)"

definition cancel_task :: "Manager \<Rightarrow> string \<Rightarrow> Error + Task \<times> Manager" where
  "cancel_task m task_id =
     (case tasks m task_id of
        None \<Rightarrow> Inl (ValueError (''Task not found: '' @ task_id))
      | Some task \<Rightarrow>
          if is_final_state (s_state (t_status task))
          then Inl (ValueError ''Task is already in a final state and cannot be canceled'')
          else
            let (ts, m1) = get_iso_timestamp m;
                task' = task\<lparr>t_status := \<lparr>s_state = CANCELED,
                           s_message = Some \<lparr>m_role = ''agent'',
                             m_parts = [TextPart ''Task was canceled'']\<rparr>,
                           s_timestamp = ts\<rparr>\<rparr>;
                m2 = m1\<lparr>tasks := (tasks m1)(task_id \<mapsto> task')\<rparr>
            in Inr (task', send_status_update m2 task'))"

definition set_push_notification ::
  "Manager \<Rightarrow> string \<Rightarrow> PushNotificationConfig
     \<Rightarrow> Error + (string \<times> PushNotificationConfig) \<times> Manager" where
  "set_push_notification m task_id config =
     (if \<not> supports_push_notifications m
      then Inl (ValueError ''Push notifications are not supported'')
      else if tasks m task_id = None
      then Inl (ValueError (''Task not found: '' @ task_id))
      else Inr ((task_id, config),
                m\<lparr>push_notifications := (push_notifications m)(task_id \<mapsto> config)\<rparr>))"

definition get_push_notification ::
  "Manager \<Rightarrow> string \<Rightarrow> Error + string \<times> PushNotificationConfig" where
  "get_push_notification m task_id =
     (if \<not> supports_push_notifications m
      then Inl (ValueError ''Push notifications are not supported'')
      else if tasks m task_id = None
      then Inl (ValueError (''Task not found: '' @ task_id))
      else case push_notifications m task_id of
        None \<Rightarrow>
          Inl (ValueError (''No push notification configuration for task: '' @ task_id))
      | Some config \<Rightarrow> Inr (task_id, config))"

text \<open>
  The loop of \<^verbatim>\<open>send_artifact_update\<close> over the stored artifacts: at the first one
  with the index of the update it extends that artifact's parts (a true \<^verbatim>\<open>append\<close>) or
  puts the update in its place, and stops. The flag is \<^verbatim>\<open>updated\<close>. \<open>index_of\<close> is
  the position \<^verbatim>\<open>i\<close> at which the loop stops, if it does.
\<close>

fun index_of :: "Artifact list \<Rightarrow> int \<Rightarrow> nat option" where
  "index_of [] index = None"
| "index_of (existing # rest) index =
     (if a_index existing = index then Some 0 else map_option Suc (index_of rest index))"

fun merge_artifact :: "Artifact list \<Rightarrow> Artifact \<Rightarrow> Artifact list \<times> bool" where
  "merge_artifact [] artifact = ([], False)"
| "merge_artifact (existing # rest) artifact =
     (if a_index existing = a_index artifact
      then ((if a_append artifact = Some True
             then existing\<lparr>a_parts := a_parts existing @ a_parts artifact\<rparr>
             else artifact) # rest, True)
      else (let (rest', updated) = merge_artifact rest artifact
            in (existing # rest', updated)))"

text \<open>
  \<^verbatim>\<open>send_artifact_update\<close>. The artifact handed over is a new object, whose parts list
  gets the address \<open>x\<close>. A true \<^verbatim>\<open>append\<close> extends the parts list of the stored
  artifact, at its address; otherwise the new object takes the place of the stored one,
  or goes to the end of the list. The event holds the object handed over.
\<close>

definition send_artifact_update :: "Manager \<Rightarrow> string \<Rightarrow> Artifact \<Rightarrow> bool \<Rightarrow> Manager" where
  "send_artifact_update m task_id artifact fin =
     (if \<not> supports_streaming m then m
      else case task_streams m task_id of
        None \<Rightarrow> m
      | Some qs \<Rightarrow>
          (case tasks m task_id of
             None \<Rightarrow> m
           | Some task \<Rightarrow>
               let existing_artifacts =
                     (case t_artifacts task of None \<Rightarrow> [] | Some xs \<Rightarrow> xs);
                   (merged, updated) = merge_artifact existing_artifacts artifact;
                   new_artifacts = (if updated then merged else existing_artifacts @ [artifact]);
                   x = next_address m;
                   refs = artifact_refs m task_id;
                   (refs', heap') =
                     (case index_of existing_artifacts (a_index artifact) of
                        None \<Rightarrow> (refs @ [x], heap m)
                      | Some i \<Rightarrow>
                          if a_append artifact = Some True
                          then (refs, (heap m)(refs ! i := heap m (refs ! i) @ a_parts artifact))
                          else (refs[i := x], heap m));
                   m1 = m\<lparr>tasks :=
                          (tasks m)(task_id \<mapsto> task\<lparr>t_artifacts := Some new_artifacts\<rparr>),
                        heap := heap'(x := a_parts artifact), next_address := Suc x,
                        artifact_refs := (artifact_refs m)(task_id := refs')\<rparr>
               in put_all m1 qs (TaskArtifactUpdateEvent task_id artifact fin) (Some x)))"

subsection \<open>Subscriptions\<close>

text \<open>
  Lines 279-291 of \<^verbatim>\<open>get_task_stream\<close>: the two checks, a new queue, and its
  registration at the end of the subscriber list of the task.
\<close>

definition subscribe :: "Manager \<Rightarrow> string \<Rightarrow> Error + nat \<times> Manager" where
  "subscribe m task_id =
     (if \<not> supports_streaming m then Inl (ValueError ''Streaming is not supported'')
      else if tasks m task_id = None
      then Inl (ValueError (''Task not found: '' @ task_id))
      else
        let queue = next_queue m;
            qs = (case task_streams m task_id of None \<Rightarrow> [] | Some qs \<Rightarrow> qs)
        in Inr (queue,
                m\<lparr>queues := (queues m)(queue := []), next_queue := Suc queue,
                  task_streams := (task_streams m)(task_id \<mapsto> qs @ [queue]),
                  queue_refs := (queue_refs m)(queue := (\<lambda>i. None))\<rparr>))"

text \<open>
  The \<^verbatim>\<open>finally\<close> block: \<^verbatim>\<open>list.remove\<close> takes the first occurrence out and raises
  \<^verbatim>\<open>ValueError\<close> when there is none.
\<close>

definition unsubscribe :: "Manager \<Rightarrow> string \<Rightarrow> nat \<Rightarrow> Error + Manager" where
  "unsubscribe m task_id queue =
     (case task_streams m task_id of
        None \<Rightarrow> Inr m
      | Some qs \<Rightarrow>
          if queue \<in> set qs
          then Inr (m\<lparr>task_streams := (task_streams m)(task_id \<mapsto> remove1 queue qs)\<rparr>)
          else Inl (ValueError ''list.remove(x): x not in list''))"

text \<open>
  What other coroutines do to the manager while one coroutine is suspended at an await.
  Each is one uninterrupted run between two awaits of the event loop: the two halves of
  a \<^verbatim>\<open>create_task\<close>, a \<^verbatim>\<open>cancel_task\<close>, a \<^verbatim>\<open>send_artifact_update\<close>, the
  registration of another subscriber, a \<^verbatim>\<open>set_push_notification\<close>. An operation that
  raises leaves the manager as it was; its exception goes to its own caller.
\<close>

datatype Action =
  Begin TaskSendParams
| Finish TaskSendParams Outcome
| Cancel string
| ArtifactUpdate string Artifact bool
| Subscribe string
| SetPush string PushNotificationConfig

fun apply_action :: "Manager \<Rightarrow> Action \<Rightarrow> Manager" where
  "apply_action m (Begin params) = create_task_begin m params"
| "apply_action m (Finish params outcome) =
     (case create_task_finish m params outcome of Inl e \<Rightarrow> m | Inr (t, m') \<Rightarrow> m')"
| "apply_action m (Cancel task_id) =
     (case cancel_task m task_id of Inl e \<Rightarrow> m | Inr (t, m') \<Rightarrow> m')"
| "apply_action m (ArtifactUpdate task_id artifact fin) =
     send_artifact_update m task_id artifact fin"
| "apply_action m (Subscribe task_id) =
     (case subscribe m task_id of Inl e \<Rightarrow> m | Inr (q, m') \<Rightarrow> m')"
| "apply_action m (SetPush task_id config) =
     (case set_push_notification m task_id config of Inl e \<Rightarrow> m | Inr (r, m') \<Rightarrow> m')"

definition run_actions :: "Manager \<Rightarrow> Action list \<Rightarrow> Manager" where
  "run_actions m acts = foldl apply_action m acts"

text \<open>
  \<^verbatim>\<open>create_task\<close> as a whole: the first half, then with a callback the operations
  \<open>during\<close> that run while the callback is awaited, then the second half with the way
  the callback ended. Without a callback the method returns the stored task at once.
  The result is the task returned or the exception raised, and the manager left behind.
\<close>

definition create_task ::
  "Manager \<Rightarrow> TaskSendParams \<Rightarrow> Action list \<Rightarrow> (Error + Task) \<times> Manager" where
  "create_task m params during =
     (let m1 = create_task_begin m params in
      case task_processor m1 of
        None \<Rightarrow>
          (case tasks m1 (sp_id params) of
             None \<Rightarrow> (Inl (KeyError (sp_id params)), m1)
           | Some stored \<Rightarrow> (Inr stored, m1))
      | Some process \<Rightarrow>
          (let m2 = run_actions m1 during in
           case create_task_finish m2 params (process params) of
             Inl e \<Rightarrow> (Inl e, m2)
           | Inr (stored, m3) \<Rightarrow> (Inr stored, m3)))"

text \<open>
  The generator \<^verbatim>\<open>get_task_stream\<close> runs in turns. It is suspended at every
  \<^verbatim>\<open>yield\<close>, until its consumer (the generator \<^verbatim>\<open>sse_stream\<close>, which writes the
  frame to the response) asks for the next event, and at
  \<^verbatim>\<open>await asyncio.wait_for(queue.get(), timeout=300)\<close> when its queue is empty, until an
  event is put or 300 seconds have passed. In between the event loop runs the other
  coroutines. A round is what they do during one suspension: operations in their order,
  each with the time in milliseconds since the one before it (for the first, since the
  generator was suspended). The list of rounds is the input of the model; when it is
  used up nothing else happens. The consumer is taken to read the stream to its end.
\<close>

type_synonym Round = "(nat \<times> Action) list"

definition run_round :: "Manager \<Rightarrow> Round \<Rightarrow> Manager" where
  "run_round m round = run_actions m (map snd round)"

definition timeout_ms :: nat where
  "timeout_ms = 300 * 1000"

text \<open>
  The local variable \<^verbatim>\<open>task\<close> holds the \<^verbatim>\<open>Task\<close> object that was stored under the id
  when the generator started. While that object is the one stored, the loop over
  \<^verbatim>\<open>task.artifacts\<close> reads what the manager has (\<open>held = None\<close>). \<open>renews\<close>: a
  \<^verbatim>\<open>create_task\<close> with the id puts another object under the id, when it starts (line
  111) and when its callback has returned (line 131). From then on the variable holds
  the object as it was at that moment, which no operation reaches any more; \<open>held\<close> is
  its artifact list. \<open>suspended\<close> runs the operations of one round and follows the
  variable through them.
\<close>

fun renews :: "Action \<Rightarrow> string \<Rightarrow> bool" where
  "renews (Begin params) task_id = (sp_id params = task_id)"
| "renews (Finish params (Returned updated_task)) task_id = (sp_id params = task_id)"
| "renews (Finish params (Raised e)) task_id = False"
| "renews (Finish params (Interrupted e)) task_id = False"
| "renews (Cancel i) task_id = False"
| "renews (ArtifactUpdate i artifact fin) task_id = False"
| "renews (Subscribe i) task_id = False"
| "renews (SetPush i config) task_id = False"

definition stored_artifacts :: "Manager \<Rightarrow> string \<Rightarrow> Artifact list" where
  "stored_artifacts m task_id =
     (case tasks m task_id of
        None \<Rightarrow> []
      | Some task \<Rightarrow> (case t_artifacts task of None \<Rightarrow> [] | Some xs \<Rightarrow> xs))"

fun suspended ::
  "string \<Rightarrow> Manager \<Rightarrow> Artifact list option \<Rightarrow> Action list
     \<Rightarrow> Manager \<times> Artifact list option" where
  "suspended task_id m held [] = (m, held)"
| "suspended task_id m held (a # acts) =
     suspended task_id (apply_action m a)
       (if held = None \<and> renews a task_id then Some (stored_artifacts m task_id) else held)
       acts"

definition task_artifacts :: "Manager \<Rightarrow> string \<Rightarrow> Artifact list option \<Rightarrow> Artifact list" where
  "task_artifacts m task_id held =
     (case held of None \<Rightarrow> stored_artifacts m task_id | Some artifacts \<Rightarrow> artifacts)"

text \<open>
  Lines 305-311, the loop \<^verbatim>\<open>for artifact in task.artifacts\<close>, entered or resumed with
  \<open>i\<close> artifacts yielded. The iterator of a list looks at the list as it is when the
  next element is asked for: there is one while \<open>i\<close> is less than the length. After
  each \<^verbatim>\<open>yield\<close> one round passes. The result is the events yielded, the manager when
  the loop is left, and the rounds that remain.
\<close>

fun replay ::
  "string \<Rightarrow> string \<Rightarrow> Manager \<Rightarrow> Artifact list option \<Rightarrow> nat \<Rightarrow> Round list
     \<Rightarrow> Event list \<times> Manager \<times> Round list" where
  "replay task_id tid m held i [] =
     (map (\<lambda>artifact. TaskArtifactUpdateEvent tid artifact False)
        (drop i (task_artifacts m task_id held)), m, [])"
| "replay task_id tid m held i (round # rounds) =
     (let artifacts = task_artifacts m task_id held in
      if i < length artifacts
      then (let (m', held') = suspended task_id m held (map snd round);
                (ys, r) = replay task_id tid m' held' (Suc i) rounds
            in (TaskArtifactUpdateEvent tid (artifacts ! i) False # ys, r))
      else ([], m, round # rounds))"

text \<open>
  The event the generator hands to its consumer when it takes the \<open>i\<close>-th event put on
  its queue: an artifact event shows the parts list of its artifact as the store has it
  at that moment.
\<close>

definition yielded :: "Manager \<Rightarrow> nat \<Rightarrow> nat \<Rightarrow> Event" where
  "yielded m queue i =
     (case (queues m queue ! i, queue_refs m queue i) of
        (TaskArtifactUpdateEvent task_id artifact fin, Some x) \<Rightarrow>
          TaskArtifactUpdateEvent task_id (artifact\<lparr>a_parts := heap m x\<rparr>) fin
      | (update, ref) \<Rightarrow> update)"

text \<open>
  The generator waits at \<^verbatim>\<open>asyncio.wait_for(queue.get(), timeout=300)\<close> with its queue
  empty, \<open>taken\<close> events taken so far and \<open>elapsed\<close> milliseconds waited. The
  operations of the round run in their order. While the queue is empty the timer runs:
  an operation that is due 300 seconds or more after the wait began comes too late, the
  wait has raised \<^verbatim>\<open>TimeoutError\<close> before it. Once an event is there the wait is over,
  and the generator runs again when the round is over.
\<close>

datatype Wait = Awake Manager nat | TimedOut Manager

fun wait_round :: "nat \<Rightarrow> nat \<Rightarrow> Manager \<Rightarrow> nat \<Rightarrow> Round \<Rightarrow> Wait" where
  "wait_round queue taken m elapsed [] = Awake m elapsed"
| "wait_round queue taken m elapsed ((delay, a) # round) =
     (if taken < length (queues m queue)
      then wait_round queue taken (apply_action m a) elapsed round
      else if timeout_ms \<le> elapsed + delay then TimedOut m
      else wait_round queue taken (apply_action m a) (elapsed + delay) round)"

text \<open>
  The \<^verbatim>\<open>while True\<close> loop, lines 317-326. When an event is in the queue the
  generator takes it and yields it; one round passes, and a true \<^verbatim>\<open>final\<close> breaks.
  When the queue is empty the generator waits, through as many rounds as it takes. When
  the rounds are used up nothing is put any more: the generator yields what is left in
  its queue up to the first final event, and with no final event the last wait ends in
  \<^verbatim>\<open>TimeoutError\<close>, which breaks too. The result is the events yielded and the manager
  at the break.
\<close>

fun updates_until_final :: "Event list \<Rightarrow> Event list" where
  "updates_until_final [] = []"
| "updates_until_final (update # rest) =
     (if final update then [update] else update # updates_until_final rest)"

fun listen ::
  "nat \<Rightarrow> Manager \<Rightarrow> nat \<Rightarrow> nat \<Rightarrow> Round list \<Rightarrow> Event list \<times> Manager" where
  "listen queue m taken elapsed [] =
     (updates_until_final (map (yielded m queue) [taken ..< length (queues m queue)]), m)"
| "listen queue m taken elapsed (round # rounds) =
     (if taken < length (queues m queue)
      then (let update = yielded m queue taken;
                m' = run_round m round
            in if final update then ([update], m')
               else (let (ys, r) = listen queue m' (Suc taken) 0 rounds in (update # ys, r)))
      else (case wait_round queue taken m elapsed round of
              TimedOut m' \<Rightarrow> ([], m')
            | Awake m' elapsed' \<Rightarrow> listen queue m' taken elapsed' rounds))"

text \<open>
  The generator as a whole. It gives the events it yields, the exception it ends with if
  any, and the manager it leaves. The checks, the new queue, its registration and the
  initial event are one run, up to the first \<^verbatim>\<open>yield\<close>; then comes the loop over the
  artifacts, the \<^verbatim>\<open>return\<close> when the initial event was final, and the loop over the
  queue. The \<^verbatim>\<open>finally\<close> block ends every way out.
\<close>

definition end_stream ::
  "Manager \<Rightarrow> string \<Rightarrow> nat \<Rightarrow> Event list \<Rightarrow> Event list \<times> Error option \<times> Manager" where
  "end_stream m task_id queue ys =
     (case unsubscribe m task_id queue of
        Inl e \<Rightarrow> (ys, Some e, m)
      | Inr m' \<Rightarrow> (ys, None, m'))"

definition get_task_stream ::
  "Manager \<Rightarrow> string \<Rightarrow> Round list \<Rightarrow> Event list \<times> Error option \<times> Manager" where
  "get_task_stream m task_id rounds =
     (case subscribe m task_id of
        Inl e \<Rightarrow> ([], Some e, m)
      | Inr (queue, m1) \<Rightarrow>
          (case tasks m1 task_id of
             None \<Rightarrow>
               (case unsubscribe m1 task_id queue of
                  Inl e \<Rightarrow> ([], Some e, m1)
                | Inr m' \<Rightarrow> ([], Some (KeyError task_id), m'))
           | Some task \<Rightarrow>
               let initial_update =
                     TaskStatusUpdateEvent (t_id task) (t_status task)
                       (is_final_state (s_state (t_status task)));
                   (m2, held) = suspended task_id m1 None (map snd (concat (take 1 rounds)));
                   (replayed, m3, rounds') = replay task_id (t_id task) m2 held 0 (drop 1 rounds)
               in if final initial_update
                  then end_stream m3 task_id queue (initial_update # replayed)
                  else
                    let (updates, m4) = listen queue m3 0 0 rounds'
                    in end_stream m4 task_id queue (initial_update # replayed @ updates)))"

text \<open>\<^verbatim>\<open>InMemoryTaskManager.__init__\<close>; the clock is the input of the model.\<close>

definition init_manager ::
  "(TaskSendParams \<Rightarrow> Outcome) option \<Rightarrow> bool \<Rightarrow> bool \<Rightarrow> (nat \<Rightarrow> string) \<Rightarrow> Manager" where
  "init_manager processor streaming push clk =
     \<lparr>tasks = Map.empty, push_notifications = Map.empty, task_processor = processor,
      supports_streaming = streaming, supports_push_notifications = push,
      task_streams = Map.empty, queues = (\<lambda>q. []), next_queue = 0,
      clock = clk, ticks = 0,
      heap = (\<lambda>x. []), next_address = 0, artifact_refs = (\<lambda>task_id. []),
      queue_refs = (\<lambda>q i. None)\<rparr>"

section \<open>Protocol server (a2a/common/server.py, class A2AServer)\<close>

definition PARSE_ERROR :: int where "PARSE_ERROR = - 32700"
definition INVALID_REQUEST :: int where "INVALID_REQUEST = - 32600"
definition METHOD_NOT_FOUND :: int where "METHOD_NOT_FOUND = - 32601"
definition INVALID_PARAMS :: int where "INVALID_PARAMS = - 32602"
definition INTERNAL_ERROR :: int where "INTERNAL_ERROR = - 32603"
definition TASK_NOT_FOUND :: int where "TASK_NOT_FOUND = - 32001"
definition TASK_NOT_CANCELABLE :: int where "TASK_NOT_CANCELABLE = - 32002"
definition PUSH_NOTIFICATION_NOT_SUPPORTED :: int where
  "PUSH_NOTIFICATION_NOT_SUPPORTED = - 32003"
definition UNSUPPORTED_OPERATION :: int where "UNSUPPORTED_OPERATION = - 32004"
definition CONTENT_TYPE_NOT_SUPPORTED :: int where "CONTENT_TYPE_NOT_SUPPORTED = - 32005"

text \<open>
  The parsed request. The \<^verbatim>\<open>id\<close> of the envelope is absent (or null), a string or an
  integer. \<open>e_jsonrpc\<close> is the string under \<^verbatim>\<open>"jsonrpc"\<close>, \<open>None\<close> when the key is
  absent or holds no string; \<open>e_method\<close> is \<open>None\<close> when the key \<^verbatim>\<open>"method"\<close> is
  absent, else the text of its value. The pydantic constructors applied to
  \<^verbatim>\<open>params\<close> belong to a library: \<open>Params\<close> records, for each of the four classes the
  handlers use, what \<^verbatim>\<open>Class(**params)\<close> gives, the text of the exception it raises
  (\<open>Inl\<close>) or the validated fields (\<open>Inr\<close>).
\<close>

datatype RpcId = NoId | StrId string | IntId int

record Params =
  as_TaskIdParams :: "string + string"
  as_TaskQueryParams :: "string + string \<times> int option"
  as_TaskSendParams :: "string + TaskSendParams"
  as_TaskPushNotificationConfig :: "string + string \<times> PushNotificationConfig"

record Envelope =
  e_jsonrpc :: "string option"
  e_method :: "string option"
  e_params :: Params
  e_id :: RpcId

text \<open>
  The body: not JSON at all, JSON that is no object (with the name of its Python type),
  or an object.
\<close>

datatype Body = Malformed | NotADict string | Dict Envelope

record Request =
  r_accept :: "string option"
  r_body :: Body

text \<open>
  What a handler returns to \<^verbatim>\<open>_success_response\<close>, one SSE frame
  (\<^verbatim>\<open>data: <json>\<close> and a blank line, the JSON being an event or the error object
  with code and message), and what the endpoint gives: the JSON-RPC error envelope with
  the id, the code and the message; the event stream, with the exception that broke it
  off if one did; or no response of its own, when an exception leaves
  \<^verbatim>\<open>handle_jsonrpc\<close>.
\<close>

datatype Result = TaskResult Task | PushResult string PushNotificationConfig

datatype Frame = EventFrame Event | ErrorFrame int string

datatype Response =
  ErrorResponse RpcId int string
| StreamingResponse "Frame list" "Error option"
| Unanswered Error

definition error_response :: "RpcId \<Rightarrow> int \<Rightarrow> string \<Rightarrow> Response" where
  "error_response request_id code message = ErrorResponse request_id code message"

text \<open>
  \<^verbatim>\<open>_success_response\<close> starts with \<^verbatim>\<open>isinstance(result, BaseModel)\<close>, and
  \<^verbatim>\<open>server.py\<close> neither imports nor defines the name \<^verbatim>\<open>BaseModel\<close>: the call raises
  \<^verbatim>\<open>NameError\<close> before it builds a response.
\<close>

definition success_response :: "RpcId \<Rightarrow> Result \<Rightarrow> Error + Response" where
  "success_response request_id result =
     Inl (NameError (''name '' @ [CHR 0x27] @ ''BaseModel'' @ [CHR 0x27] @ '' is not defined''))"

text \<open>
  The handlers. Each has its body in a \<^verbatim>\<open>try\<close> whose clause
  \<^verbatim>\<open>except Exception as e\<close> raises \<^verbatim>\<open>ValueError(f"Invalid params: {str(e)}")\<close>.
\<close>

definition invalid_params :: "string \<Rightarrow> Error" where
  "invalid_params text = ValueError (''Invalid params: '' @ text)"

definition reraise :: "Error \<Rightarrow> Error" where
  "reraise e = (if is_exception e then invalid_params (str e) else e)"

definition handle_send_task ::
  "Manager \<Rightarrow> Params \<Rightarrow> Action list \<Rightarrow> (Error + Task) \<times> Manager" where
  "handle_send_task m params during =
     (case as_TaskSendParams params of
        Inl text \<Rightarrow> (Inl (invalid_params text), m)
      | Inr send_params \<Rightarrow>
          (case create_task m send_params during of
             (Inl e, m') \<Rightarrow> (Inl (reraise e), m')
           | (Inr task, m') \<Rightarrow> (Inr task, m')))"

definition handle_get_task :: "Manager \<Rightarrow> Params \<Rightarrow> Error + Task" where
  "handle_get_task m params =
     (case as_TaskQueryParams params of
        Inl text \<Rightarrow> Inl (invalid_params text)
      | Inr (task_id, historyLength) \<Rightarrow>
          (case get_task m task_id historyLength of
             Inl e \<Rightarrow> Inl (reraise e)
           | Inr task \<Rightarrow> Inr task))"

definition handle_cancel_task :: "Manager \<Rightarrow> Params \<Rightarrow> Error + Task \<times> Manager" where
  "handle_cancel_task m params =
     (case as_TaskIdParams params of
        Inl text \<Rightarrow> Inl (invalid_params text)
      | Inr task_id \<Rightarrow>
          (case cancel_task m task_id of
             Inl e \<Rightarrow> Inl (reraise e)
           | Inr r \<Rightarrow> Inr r))"

definition handle_set_push_notification ::
  "Manager \<Rightarrow> Params \<Rightarrow> Error + (string \<times> PushNotificationConfig) \<times> Manager" where
  "handle_set_push_notification m params =
     (case as_TaskPushNotificationConfig params of
        Inl text \<Rightarrow> Inl (invalid_params text)
      | Inr (task_id, config) \<Rightarrow>
          (case set_push_notification m task_id config of
             Inl e \<Rightarrow> Inl (reraise e)
           | Inr r \<Rightarrow> Inr r))"

definition handle_get_push_notification ::
  "Manager \<Rightarrow> Params \<Rightarrow> Error + string \<times> PushNotificationConfig" where
  "handle_get_push_notification m params =
     (case as_TaskIdParams params of
        Inl text \<Rightarrow> Inl (invalid_params text)
      | Inr task_id \<Rightarrow>
          (case get_push_notification m task_id of
             Inl e \<Rightarrow> Inl (reraise e)
           | Inr r \<Rightarrow> Inr r))"

text \<open>
  The two generators \<^verbatim>\<open>sse_stream\<close>: the frames written to the response, the
  exception that leaves the generator if any, and the manager left behind. Each takes an
  event from \<^verbatim>\<open>get_task_stream\<close> and writes it out at once, in the same run. The clause
  \<^verbatim>\<open>except Exception\<close> turns an exception of the body into one last error frame; any
  other exception leaves the generator.
\<close>

definition error_frame :: "Error \<Rightarrow> Frame" where
  "error_frame e = ErrorFrame INTERNAL_ERROR (''Streaming error: '' @ str e)"

definition close_stream :: "Frame list \<Rightarrow> Error option \<Rightarrow> Frame list \<times> Error option" where
  "close_stream frames err =
     (case err of
        None \<Rightarrow> (frames, None)
      | Some e \<Rightarrow> if is_exception e then (frames @ [error_frame e], None) else (frames, Some e))"

definition stream_frames ::
  "Event list \<times> Error option \<times> Manager \<Rightarrow> (Frame list \<times> Error option) \<times> Manager" where
  "stream_frames r =
     (case r of (events, err, m') \<Rightarrow> (close_stream (map EventFrame events) err, m'))"

definition sse_stream_send_subscribe ::
  "Manager \<Rightarrow> TaskSendParams \<Rightarrow> Action list \<Rightarrow> Round list
     \<Rightarrow> (Frame list \<times> Error option) \<times> Manager" where
  "sse_stream_send_subscribe m send_params during sched =
     (case create_task m send_params during of
        (Inl e, m1) \<Rightarrow> (close_stream [] (Some e), m1)
      | (Inr task, m1) \<Rightarrow> stream_frames (get_task_stream m1 (sp_id send_params) sched))"

definition sse_stream_resubscribe ::
  "Manager \<Rightarrow> string \<Rightarrow> Round list \<Rightarrow> (Frame list \<times> Error option) \<times> Manager" where
  "sse_stream_resubscribe m task_id sched = stream_frames (get_task_stream m task_id sched)"

definition handle_send_subscribe ::
  "Manager \<Rightarrow> Params \<Rightarrow> Action list \<Rightarrow> Round list \<Rightarrow> (Error + Response) \<times> Manager" where
  "handle_send_subscribe m params during sched =
     (case as_TaskSendParams params of
        Inl text \<Rightarrow> (Inl (invalid_params text), m)
      | Inr send_params \<Rightarrow>
          (case sse_stream_send_subscribe m send_params during sched of
             ((frames, err), m') \<Rightarrow> (Inr (StreamingResponse frames err), m')))"

definition handle_resubscribe ::
  "Manager \<Rightarrow> Params \<Rightarrow> Round list \<Rightarrow> (Error + Response) \<times> Manager" where
  "handle_resubscribe m params sched =
     (case as_TaskQueryParams params of
        Inl text \<Rightarrow> (Inl (invalid_params text), m)
      | Inr (task_id, historyLength) \<Rightarrow>
          (case sse_stream_resubscribe m task_id sched of
             ((frames, err), m') \<Rightarrow> (Inr (StreamingResponse frames err), m')))"

text \<open>
  The \<^verbatim>\<open>except ValueError\<close> clause of \<^verbatim>\<open>handle_jsonrpc\<close>: the code is chosen by the
  phrases the text of the exception contains (Python's \<^verbatim>\<open>in\<close> on strings is
  \<^const>\<open>sublist\<close>). Then the outer \<^verbatim>\<open>except Exception\<close> clause, and the way of an
  exception raised inside the dispatch: a \<^verbatim>\<open>ValueError\<close> meets the first clause, any
  other instance of \<^verbatim>\<open>Exception\<close> the second, and the rest leaves the method.
\<close>

definition value_error_response :: "RpcId \<Rightarrow> string \<Rightarrow> Response" where
  "value_error_response request_id error_message =
     (if sublist ''Task not found'' error_message
      then error_response request_id TASK_NOT_FOUND error_message
      else if sublist ''Task is already in a final state'' error_message
      then error_response request_id TASK_NOT_CANCELABLE error_message
      else if sublist ''Push notifications are not supported'' error_message
      then error_response request_id PUSH_NOTIFICATION_NOT_SUPPORTED error_message
      else if sublist ''Streaming is not supported'' error_message
      then error_response request_id UNSUPPORTED_OPERATION error_message
      else error_response request_id INVALID_PARAMS error_message)"

definition internal_error_response :: "Error \<Rightarrow> Response" where
  "internal_error_response e =
     error_response NoId INTERNAL_ERROR (''Internal error: '' @ str e)"

fun exception_response :: "RpcId \<Rightarrow> Error \<Rightarrow> Response" where
  "exception_response request_id (ValueError error_message) =
     value_error_response request_id error_message"
| "exception_response request_id (BaseException s) = Unanswered (BaseException s)"
| "exception_response request_id e = internal_error_response e"

text \<open>
  What follows a handler in the \<^verbatim>\<open>try\<close> block of the dispatch: its exception takes
  the way above, its result goes to \<^verbatim>\<open>_success_response\<close>, whose exception takes the
  same way. The argument is what the handler gave and the manager it left.
\<close>

definition respond :: "RpcId \<Rightarrow> (Error + Result) \<times> Manager \<Rightarrow> Response \<times> Manager" where
  "respond request_id r =
     (case r of
        (Inl e, m') \<Rightarrow> (exception_response request_id e, m')
      | (Inr result, m') \<Rightarrow>
          (case success_response request_id result of
             Inl e \<Rightarrow> (exception_response request_id e, m')
           | Inr response \<Rightarrow> (response, m')))"

definition respond_stream ::
  "RpcId \<Rightarrow> (Error + Response) \<times> Manager \<Rightarrow> Response \<times> Manager" where
  "respond_stream request_id r =
     (case r of
        (Inl e, m') \<Rightarrow> (exception_response request_id e, m')
      | (Inr response, m') \<Rightarrow> (response, m'))"

text \<open>
  \<^verbatim>\<open>handle_jsonrpc\<close>. \<open>during\<close> is what the other coroutines do while a
  \<^verbatim>\<open>create_task\<close> awaits its callback, \<open>sched\<close> the rounds of what they do while a
  stream is open. A handler that raises before it changes anything leaves the manager
  \<open>m\<close>.
\<close>

definition handle_jsonrpc ::
  "Manager \<Rightarrow> Request \<Rightarrow> Action list \<Rightarrow> Round list \<Rightarrow> Response \<times> Manager" where
  "handle_jsonrpc m request during sched =
     (case r_body request of
        Malformed \<Rightarrow> (error_response NoId PARSE_ERROR ''Invalid JSON'', m)
      | NotADict ty \<Rightarrow>
          (internal_error_response
             (AttributeError ([CHR 0x27] @ ty @ [CHR 0x27] @ '' object has no attribute ''
                @ [CHR 0x27] @ ''get'' @ [CHR 0x27])), m)
      | Dict data \<Rightarrow>
          if e_jsonrpc data \<noteq> Some ''2.0'' \<or> e_method data = None
          then (error_response (e_id data) INVALID_REQUEST ''Invalid JSON-RPC request'', m)
          else
            let method = (case e_method data of None \<Rightarrow> [] | Some method \<Rightarrow> method);
                params = e_params data;
                request_id = e_id data;
                is_streaming =
                  (method = ''tasks/sendSubscribe'' \<or> method = ''tasks/resubscribe'')
            in if is_streaming \<and> r_accept request \<noteq> Some ''text/event-stream''
               then (error_response request_id CONTENT_TYPE_NOT_SUPPORTED
                       ''Streaming requests require Accept: text/event-stream header'', m)
               else if method = ''tasks/send''
               then respond request_id
                      (case handle_send_task m params during of
                         (r, m') \<Rightarrow> (map_sum id TaskResult r, m'))
               else if method = ''tasks/get''
               then respond request_id
                      (map_sum id TaskResult (handle_get_task m params), m)
               else if method = ''tasks/cancel''
               then respond request_id
                      (case handle_cancel_task m params of
                         Inl e \<Rightarrow> (Inl e, m)
                       | Inr (task, m') \<Rightarrow> (Inr (TaskResult task), m'))
               else if method = ''tasks/pushNotification/set''
               then respond request_id
                      (case handle_set_push_notification m params of
                         Inl e \<Rightarrow> (Inl e, m)
                       | Inr ((task_id, config), m') \<Rightarrow> (Inr (PushResult task_id config), m'))
               else if method = ''tasks/pushNotification/get''
               then respond request_id
                      (map_sum id (\<lambda>(task_id, config). PushResult task_id config)
                         (handle_get_push_notification m params), m)
               else if method = ''tasks/sendSubscribe''
               then respond_stream request_id (handle_send_subscribe m params during sched)
               else if method = ''tasks/resubscribe''
               then respond_stream request_id (handle_resubscribe m params sched)
               else (error_response request_id METHOD_NOT_FOUND
                       (''Method not found: '' @ method), m))"

section \<open>Host agent (a2a/hosts/host_agent.py, a2a/agents/base_agent.py)\<close>

text \<open>
  \<^verbatim>\<open>str.lower\<close> applies the case mapping of the Unicode tables of the Python runtime,
  which are no part of this repository. It is an input of the model: the functions that
  call \<^verbatim>\<open>message.lower()\<close> take it as their first argument \<open>lower\<close>, and what is
  proved of them holds for every such function. \<^verbatim>\<open>sep.join(texts)\<close> is \<open>join\<close>.
\<close>

fun join :: "string \<Rightarrow> string list \<Rightarrow> string" where
  "join sep [] = []"
| "join sep [x] = x"
| "join sep (x # y # ys) = x @ sep @ join sep (y # ys)"

text \<open>
  The parts with an attribute \<^verbatim>\<open>text\<close> are the text parts.
  \<^verbatim>\<open>BaseAgent._extract_message_text\<close> joins their texts with one space.
\<close>

fun part_texts :: "Part list \<Rightarrow> string list" where
  "part_texts [] = []"
| "part_texts (TextPart text # parts) = text # part_texts parts"
| "part_texts (FilePart f # parts) = part_texts parts"
| "part_texts (DataPart d # parts) = part_texts parts"

definition extract_message_text :: "Message \<Rightarrow> string" where
  "extract_message_text message = join '' '' (part_texts (m_parts message))"

text \<open>
  A \<^verbatim>\<open>RemoteAgentConnection\<close> as the host sees it while it routes one message: the
  name on the card it cached when it connected, what \<^verbatim>\<open>send_task\<close> gives, and what
  the successive calls of \<^verbatim>\<open>get_task\<close> give, an \<^verbatim>\<open>A2AClientError\<close> with its text
  (\<open>Inl\<close>) or a task. A remote that stops answering is a list that ends.
\<close>

record Remote =
  rc_card_name :: string
  rc_send_task :: "string + Task"
  rc_get_task :: "(string + Task) list"

text \<open>
  The two dictionaries of the host keep insertion order, which the matching follows:
  they are association lists.
\<close>

record Host =
  remote_agents :: "(string \<times> Remote) list"
  agent_skills :: "(string \<times> string list) list"

text \<open>
  \<^verbatim>\<open>_extract_skill_info\<close>. First pass: the first skill id, in the order of the
  dictionary and of each list, that occurs in the lowered message. The two keyword
  passes: the first remote one of whose skill ids contains the keyword.
\<close>

fun first_skill_match :: "(string \<times> string list) list \<Rightarrow> string \<Rightarrow> (string \<times> string) option" where
  "first_skill_match [] text = None"
| "first_skill_match ((url, skill_ids) # rest) text =
     (case find (\<lambda>skill_id. sublist skill_id text) skill_ids of
        Some skill_id \<Rightarrow> Some (url, skill_id)
      | None \<Rightarrow> first_skill_match rest text)"

fun first_keyword_match :: "(string \<times> string list) list \<Rightarrow> string \<Rightarrow> string option" where
  "first_keyword_match [] keyword = None"
| "first_keyword_match ((url, skill_ids) # rest) keyword =
     (if list_ex (\<lambda>skill_id. sublist keyword skill_id) skill_ids then Some url
      else first_keyword_match rest keyword)"

definition extract_skill_info ::
  "(string \<Rightarrow> string) \<Rightarrow> Host \<Rightarrow> string \<Rightarrow> string option \<times> string option" where
  "extract_skill_info lower h message =
     (case first_skill_match (agent_skills h) (lower message) of
        Some (url, skill_id) \<Rightarrow> (Some url, Some skill_id)
      | None \<Rightarrow>
          (case (if sublist ''code'' (lower message) \<or> sublist ''convert'' (lower message)
                 then first_keyword_match (agent_skills h) ''code'' else None) of
             Some url \<Rightarrow> (Some url, Some ''code-conversion'')
           | None \<Rightarrow>
               (case (if sublist ''data'' (lower message) \<or> sublist ''migration'' (lower message)
                         \<or> sublist ''database'' (lower message)
                      then first_keyword_match (agent_skills h) ''data'' else None) of
                  Some url \<Rightarrow> (Some url, Some ''data-migration'')
                | None \<Rightarrow> (None, None))))"

text \<open>
  What the host does to the outside while it routes: the \<^verbatim>\<open>send_task\<close> to a remote
  (url, message, session id), a sleep (in milliseconds) and a \<^verbatim>\<open>get_task\<close> (url,
  task id). \<^verbatim>\<open>get_card\<close> reads the cached card and calls nothing.
\<close>

datatype Call = SendTask string string "string option" | Sleep nat | GetTask string string

definition poll_interval_ms :: nat where
  "poll_interval_ms = 500"

text \<open>
  The loop \<^verbatim>\<open>while task.status.state not in [COMPLETED, FAILED, CANCELED]\<close>: a sleep of
  0.5 seconds, then \<^verbatim>\<open>get_task(task.id)\<close>, whose exception leaves the loop. It gives
  the calls made and the exception text or the terminal task, and \<open>None\<close> when the
  answers end first: the loop then never returns.
\<close>

fun poll ::
  "string \<Rightarrow> Task \<Rightarrow> (string + Task) list \<Rightarrow> Call list
     \<Rightarrow> (Call list \<times> (string + Task)) option" where
  "poll url task [] calls =
     (if s_state (t_status task) \<in> set [COMPLETED, FAILED, CANCELED]
      then Some (calls, Inr task)
      else None)"
| "poll url task (answer # rest) calls =
     (if s_state (t_status task) \<in> set [COMPLETED, FAILED, CANCELED]
      then Some (calls, Inr task)
      else case answer of
        Inl e \<Rightarrow> Some (calls @ [Sleep poll_interval_ms, GetTask url (t_id task)], Inl e)
      | Inr task' \<Rightarrow>
          poll url task' rest (calls @ [Sleep poll_interval_ms, GetTask url (t_id task)]))"

text \<open>Lines 245-257: the text taken from the terminal task.\<close>

definition response_text :: "Task \<Rightarrow> string" where
  "response_text task =
     (if s_state (t_status task) = COMPLETED
      then (case s_message (t_status task) of
              Some message \<Rightarrow> extract_message_text message
            | None \<Rightarrow>
                (case t_artifacts task of
                   Some (artifact # artifacts) \<Rightarrow>
                     join [CHR ''\<newline>'', CHR ''\<newline>'']
                       (concat (map (\<lambda>a. part_texts (a_parts a)) (artifact # artifacts)))
                 | _ \<Rightarrow> ''Task completed successfully, but no response was provided.''))
      else ''Task failed: '' @
             (case s_message (t_status task) of
                Some message \<Rightarrow> extract_message_text message
              | None \<Rightarrow> ''Unknown error''))"

definition general_response :: "string \<Rightarrow> string" where
  \<open>general_response message =
     ''As the DevGenius Host Agent, I can help route your request to specialized agents for:\<newline>\<newline>1. Code Conversion (AWS to GCP)\<newline>2. Data Migration (DynamoDB to Firestore/Spanner, S3 to GCS, etc.)\<newline>3. Schema Translation\<newline>4. Architecture Design\<newline>5. Security Validation\<newline>\<newline>Your request: "''
     @ message @
     ''"\<newline>\<newline>To help you better, please specify which type of task you're looking to accomplish. For example:\<newline>- "Convert this AWS Lambda code to Google Cloud Function"\<newline>- "Migrate my DynamoDB schema to Firestore"\<newline>- "Design a GCP architecture equivalent to my AWS setup"\<newline>''\<close>

text \<open>
  \<^verbatim>\<open>HostAgent._process_message\<close> with the case mapping of the runtime and the session
  id of the parameters. The result is
  the calls made and the text returned, or the exception raised; \<open>None\<close> when the call
  never returns. An empty url is false in \<^verbatim>\<open>if agent_url:\<close>. The lookup
  \<^verbatim>\<open>self.remote_agents[agent_url]\<close> stands before the \<^verbatim>\<open>try\<close>; everything after it is
  inside, and \<^verbatim>\<open>except Exception\<close> turns an exception into the returned text.
\<close>

definition process_message ::
  "(string \<Rightarrow> string) \<Rightarrow> Host \<Rightarrow> string \<Rightarrow> string option
     \<Rightarrow> (Call list \<times> (Error + string)) option" where
  "process_message lower h message session_id =
     (if remote_agents h = []
      then Some ([], Inr ''No remote agents connected. Please connect to some agents first.'')
      else case extract_skill_info lower h message of
        (None, skill_id) \<Rightarrow> Some ([], Inr (general_response message))
      | (Some agent_url, skill_id) \<Rightarrow>
          if agent_url = [] then Some ([], Inr (general_response message))
          else case map_of (remote_agents h) agent_url of
            None \<Rightarrow> Some ([], Inl (KeyError agent_url))
          | Some agent_conn \<Rightarrow>
              (case rc_send_task agent_conn of
                 Inl e \<Rightarrow>
                   Some ([SendTask agent_url message session_id],
                         Inr (''Error processing task with remote agent: '' @ e))
               | Inr task \<Rightarrow>
                   (case poll agent_url task (rc_get_task agent_conn)
                           [SendTask agent_url message session_id] of
                      None \<Rightarrow> None
                    | Some (calls, Inl e) \<Rightarrow>
                        Some (calls, Inr (''Error processing task with remote agent: '' @ e))
                    | Some (calls, Inr task') \<Rightarrow> Some (calls, Inr (response_text task')))))"

section \<open>Protocol client: the SSE reader (a2a/common/client.py)\<close>

text \<open>
  The loop that \<^verbatim>\<open>send_subscribe\<close> and \<^verbatim>\<open>resubscribe\<close> share word for word. JSON
  values are a datatype (numbers without fraction). \<^verbatim>\<open>json.loads\<close> and the two
  pydantic constructors belong to libraries and are inputs of the model: \<open>json_loads\<close>
  gives \<open>None\<close> for \<^verbatim>\<open>JSONDecodeError\<close>, the constructors give the text of their
  exception (\<open>Inl\<close>) or the event.
\<close>

datatype Json =
  JNull | JBool bool | JNumber int | JString string
| JArray "Json list" | JObject "(string \<times> Json) list"

record Codec =
  json_loads :: "string \<Rightarrow> Json option"
  status_event :: "(string \<times> Json) list \<Rightarrow> string + Event"
  artifact_event :: "(string \<times> Json) list \<Rightarrow> string + Event"

text \<open>
  What ends the generator early. Every exception inside the \<^verbatim>\<open>try\<close> other than
  \<^verbatim>\<open>JSONDecodeError\<close> reaches \<^verbatim>\<open>except Exception\<close> and is raised again as
  \<^verbatim>\<open>A2AClientError("Streaming request failed: ...")\<close>: \<^verbatim>\<open>in\<close> applied to a value
  that is no container, \<^verbatim>\<open>**\<close> applied to a value that is no mapping, and a
  validation error of a constructor.
\<close>

datatype StreamFailure = NotIterable Json | NotAMapping Json | ValidationFailed string

text \<open>
  \<^verbatim>\<open>key in event_json\<close>: a key of an object, a substring of a string, an element of
  an array.
\<close>

fun json_contains :: "Json \<Rightarrow> string \<Rightarrow> StreamFailure + bool" where
  "json_contains (JObject members) key = Inr (key \<in> set (map fst members))"
| "json_contains (JString s) key = Inr (sublist key s)"
| "json_contains (JArray xs) key = Inr (JString key \<in> set xs)"
| "json_contains v key = Inl (NotIterable v)"

fun construct ::
  "((string \<times> Json) list \<Rightarrow> string + Event) \<Rightarrow> Json \<Rightarrow> StreamFailure + Event" where
  "construct build (JObject members) =
     (case build members of Inl e \<Rightarrow> Inl (ValidationFailed e) | Inr event \<Rightarrow> Inr event)"
| "construct build v = Inl (NotAMapping v)"

text \<open>
  Lines 230-233: the events yielded for one decoded frame and the exception, if any.
\<close>

definition dispatch_event :: "Codec \<Rightarrow> Json \<Rightarrow> Event list \<times> StreamFailure option" where
  "dispatch_event codec event_json =
     (case json_contains event_json ''status'' of
        Inl e \<Rightarrow> ([], Some e)
      | Inr True \<Rightarrow>
          (case construct (status_event codec) event_json of
             Inl e \<Rightarrow> ([], Some e)
           | Inr event \<Rightarrow> ([event], None))
      | Inr False \<Rightarrow>
          (case json_contains event_json ''artifact'' of
             Inl e \<Rightarrow> ([], Some e)
           | Inr True \<Rightarrow>
               (case construct (artifact_event codec) event_json of
                  Inl e \<Rightarrow> ([], Some e)
                | Inr event \<Rightarrow> ([event], None))
           | Inr False \<Rightarrow> ([], None)))"

text \<open>
  \<^verbatim>\<open>str.strip()\<close> takes from both ends of a text the characters for which
  \<^verbatim>\<open>str.isspace\<close> holds. There are twenty-nine: ten ASCII characters (tab, line feed,
  vertical tab, form feed, carriage return, the four separators 0x1C-0x1F and the space),
  two that UTF-8 writes with two bytes (U+0085 and U+00A0, the bytes C2 85 and C2 A0) and
  seventeen that it writes with three: U+1680 (E1 9A 80), U+2000 to U+200A (E2 80 80 to
  E2 80 8A), U+2028, U+2029 and U+202F (E2 80 A8, E2 80 A9, E2 80 AF), U+205F (E2 81 9F)
  and U+3000 (E3 80 80). \<open>lstrip\<close> takes them from the front; \<open>rstrip_rev\<close> does the
  same on the text read from its end.
\<close>

definition is_space :: "char \<Rightarrow> bool" where
  "is_space c =
     (c \<in> set [CHR 0x09, CHR ''\<newline>'', CHR 0x0B, CHR 0x0C, CHR 0x0D,
                CHR 0x1C, CHR 0x1D, CHR 0x1E, CHR 0x1F, CHR '' ''])"

definition is_space2 :: "char \<Rightarrow> char \<Rightarrow> bool" where
  "is_space2 a b = (a = CHR 0xC2 \<and> b \<in> set [CHR 0x85, CHR 0xA0])"

definition is_space3 :: "char \<Rightarrow> char \<Rightarrow> char \<Rightarrow> bool" where
  "is_space3 a b c =
     ((a = CHR 0xE1 \<and> b = CHR 0x9A \<and> c = CHR 0x80) \<or>
      (a = CHR 0xE2 \<and> b = CHR 0x80 \<and>
       c \<in> set [CHR 0x80, CHR 0x81, CHR 0x82, CHR 0x83, CHR 0x84, CHR 0x85, CHR 0x86,
                  CHR 0x87, CHR 0x88, CHR 0x89, CHR 0x8A, CHR 0xA8, CHR 0xA9, CHR 0xAF]) \<or>
      (a = CHR 0xE2 \<and> b = CHR 0x81 \<and> c = CHR 0x9F) \<or>
      (a = CHR 0xE3 \<and> b = CHR 0x80 \<and> c = CHR 0x80))"

fun lstrip :: "string \<Rightarrow> string" where
  "lstrip (a # b # c # cs) =
     (if is_space a then lstrip (b # c # cs)
      else if is_space2 a b then lstrip (c # cs)
      else if is_space3 a b c then lstrip cs
      else a # b # c # cs)"
| "lstrip [a, b] =
     (if is_space a then lstrip [b] else if is_space2 a b then [] else [a, b])"
| "lstrip [a] = (if is_space a then [] else [a])"
| "lstrip [] = []"

fun rstrip_rev :: "string \<Rightarrow> string" where
  "rstrip_rev (c # b # a # cs) =
     (if is_space c then rstrip_rev (b # a # cs)
      else if is_space2 b c then rstrip_rev (a # cs)
      else if is_space3 a b c then rstrip_rev cs
      else c # b # a # cs)"
| "rstrip_rev [c, b] =
     (if is_space c then rstrip_rev [b] else if is_space2 b c then [] else [c, b])"
| "rstrip_rev [c] = (if is_space c then [] else [c])"
| "rstrip_rev [] = []"

definition strip :: "string \<Rightarrow> string" where
  "strip s = rev (rstrip_rev (rev (lstrip s)))"

text \<open>
  \<^verbatim>\<open>str.split("\n")\<close>, and the loop over the lines that keeps what follows
  \<^verbatim>\<open>data: \<close> on the last line that starts so.
\<close>

fun split_lines :: "string \<Rightarrow> string list" where
  "split_lines [] = [[]]"
| "split_lines (c # cs) =
     (if c = CHR ''\<newline>'' then [] # split_lines cs
      else (case split_lines cs of
              [] \<Rightarrow> [[c]]
            | line # lines \<Rightarrow> (c # line) # lines))"

definition event_data_of :: "string \<Rightarrow> string option" where
  "event_data_of event =
     foldl (\<lambda>event_data line. if prefix ''data: '' line then Some (drop 6 line) else event_data)
       None (split_lines (strip event))"

text \<open>Lines 219-235: one frame taken off the buffer.\<close>

definition process_event :: "Codec \<Rightarrow> string \<Rightarrow> Event list \<times> StreamFailure option" where
  "process_event codec event =
     (case event_data_of event of
        None \<Rightarrow> ([], None)
      | Some event_data \<Rightarrow>
          if event_data = [] then ([], None)
          else (case json_loads codec event_data of
                  None \<Rightarrow> ([], None)
                | Some event_json \<Rightarrow> dispatch_event codec event_json))"

text \<open>
  \<^verbatim>\<open>buffer.split("\n\n", 1)\<close> for a buffer that contains a blank line: the text before
  the first one and the text after it; \<open>None\<close> when \<^verbatim>\<open>"\n\n" in buffer\<close> is false.
\<close>

fun split_blank :: "string \<Rightarrow> (string \<times> string) option" where
  "split_blank (a # b # cs) =
     (if a = CHR ''\<newline>'' \<and> b = CHR ''\<newline>'' then Some ([], cs)
      else (case split_blank (b # cs) of
              None \<Rightarrow> None
            | Some (event, rest) \<Rightarrow> Some (a # event, rest)))"
| "split_blank cs = None"

lemma split_blank_shorter [termination_simp]:
  "split_blank buffer = Some (event, rest) \<Longrightarrow> length rest < length buffer"
  by (induction buffer arbitrary: event rest rule: split_blank.induct)
     (auto split: if_splits option.splits)

text \<open>
  The loop \<^verbatim>\<open>while "\n\n" in buffer\<close>: the events yielded, the exception that ended
  it, and the buffer left.
\<close>

function drain :: "Codec \<Rightarrow> string \<Rightarrow> Event list \<times> StreamFailure option \<times> string" where
  "drain codec buffer =
     (case split_blank buffer of
        None \<Rightarrow> ([], None, buffer)
      | Some (event, rest) \<Rightarrow>
          (case process_event codec event of
             (ys, Some e) \<Rightarrow> (ys, Some e, rest)
           | (ys, None) \<Rightarrow>
               (case drain codec rest of (ys', r) \<Rightarrow> (ys @ ys', r))))"
  by pat_completeness auto
termination
  by (relation "measure (\<lambda>(codec, buffer). length buffer)") (auto simp: split_blank_shorter)

declare drain.simps [simp del]

text \<open>
  The loop over the chunks of the response, and the generator as a whole: the events it
  yields and the failure it raises as \<^verbatim>\<open>A2AClientError\<close>, if any.
\<close>

fun read_chunks ::
  "Codec \<Rightarrow> string \<Rightarrow> string list \<Rightarrow> Event list \<times> StreamFailure option" where
  "read_chunks codec buffer [] = ([], None)"
| "read_chunks codec buffer (chunk # chunks) =
     (case drain codec (buffer @ chunk) of
        (ys, Some e, buffer') \<Rightarrow> (ys, Some e)
      | (ys, None, buffer') \<Rightarrow>
          (case read_chunks codec buffer' chunks of (ys', r) \<Rightarrow> (ys @ ys', r)))"

definition sse_events :: "Codec \<Rightarrow> string list \<Rightarrow> Event list \<times> StreamFailure option" where
  "sse_events codec chunks = read_chunks codec [] chunks"

text \<open>
  The JSON object of the frame the server writes when a stream fails:
  \<^verbatim>\<open>{"error": {"code": ..., "message": ...}}\<close>.
\<close>

definition error_event_json :: "Frame \<Rightarrow> Json" where
  "error_event_json frame =
     (case frame of
        ErrorFrame code message \<Rightarrow>
          JObject [(''error'', JObject [(''code'', JNumber code),
                                       (''message'', JString message)])]
      | EventFrame event \<Rightarrow> JNull)"

section \<open>Vocabulary of the properties and sample values\<close>

text \<open>Sample values for the closed instances below.\<close>

definition demo_clock :: "nat \<Rightarrow> string" where
  "demo_clock n = ''2025-01-01T00:00:00+00:00''"

definition demo_params :: TaskSendParams where
  "demo_params = \<lparr>sp_id = ''t1'', sp_historyLength = None, sp_sessionId = None,
     sp_message = \<lparr>m_role = ''user'', m_parts = [TextPart ''hello'']\<rparr>,
     sp_pushNotification = None\<rparr>"

definition demo_artifact :: "string \<Rightarrow> bool option \<Rightarrow> Artifact" where
  "demo_artifact text app = \<lparr>a_name = None, a_description = None,
     a_parts = [TextPart text], a_index = 0, a_append = app, a_lastChunk = None\<rparr>"

text \<open>A manager without callback on which task \<open>t1\<close> was created and then canceled.\<close>

definition canceled_manager :: Manager where
  "canceled_manager =
     apply_action (create_task_begin (init_manager None True False demo_clock) demo_params)
       (Cancel ''t1'')"

text \<open>
  A manager whose callback returns a COMPLETED task, and that manager at the moment the
  callback for task \<open>t1\<close> returns when a \<^verbatim>\<open>cancel_task\<close> has run in the meantime.
\<close>

definition completing_processor :: "TaskSendParams \<Rightarrow> Outcome" where
  "completing_processor params =
     Returned \<lparr>t_id = sp_id params, t_sessionId = sp_sessionId params,
       t_status = \<lparr>s_state = COMPLETED, s_message = None, s_timestamp = []\<rparr>,
       t_artifacts = Some [], t_history = None\<rparr>"

definition completing_manager :: Manager where
  "completing_manager = init_manager (Some completing_processor) True False demo_clock"

definition overtaken_manager :: Manager where
  "overtaken_manager =
     run_actions (create_task_begin completing_manager demo_params) [Cancel ''t1'']"

text \<open>
  The artifact list of a task as \<^verbatim>\<open>task.artifacts or []\<close> reads it, and what one
  stored artifact becomes under an update with its index: with a true \<^verbatim>\<open>append\<close> it
  keeps its fields and gets the parts of the update at the end of its own, otherwise the
  update takes its place.
\<close>

definition artifacts_of :: "Task \<Rightarrow> Artifact list" where
  "artifacts_of task = (case t_artifacts task of None \<Rightarrow> [] | Some xs \<Rightarrow> xs)"

definition merged_artifact :: "Artifact \<Rightarrow> Artifact \<Rightarrow> Artifact" where
  "merged_artifact existing update =
     (if a_append update = Some True
      then existing\<lparr>a_parts := a_parts existing @ a_parts update\<rparr>
      else update)"

text \<open>Task \<open>t1\<close> just created, on a manager with streaming and on one without.\<close>

definition streaming_manager :: Manager where
  "streaming_manager = create_task_begin (init_manager None True False demo_clock) demo_params"

definition plain_manager :: Manager where
  "plain_manager = create_task_begin (init_manager None False False demo_clock) demo_params"

text \<open>
  The operations that put a task object under \<open>task_id\<close>: the two halves of a
  \<^verbatim>\<open>create_task\<close> with that id. A task id is meant to be created once; \<open>no_create\<close>
  says that a list of operations holds no further creation of the id.
\<close>

fun creates :: "Action \<Rightarrow> string \<Rightarrow> bool" where
  "creates (Begin params) task_id = (sp_id params = task_id)"
| "creates (Finish params outcome) task_id = (sp_id params = task_id)"
| "creates (Cancel i) task_id = False"
| "creates (ArtifactUpdate i artifact fin) task_id = False"
| "creates (Subscribe i) task_id = False"
| "creates (SetPush i config) task_id = False"

definition no_create :: "Action list \<Rightarrow> string \<Rightarrow> bool" where
  "no_create acts task_id = list_all (\<lambda>a. \<not> creates a task_id) acts"

text \<open>A manager whose callback always raises.\<close>

definition failing_processor :: "TaskSendParams \<Rightarrow> Outcome" where
  "failing_processor params = Raised ''boom''"

definition failing_manager :: Manager where
  "failing_manager = init_manager (Some failing_processor) True False demo_clock"

text \<open>A manager whose callback is cancelled while it is awaited.\<close>

definition cancelled_processor :: "TaskSendParams \<Rightarrow> Outcome" where
  "cancelled_processor params = Interrupted ''cancelled''"

definition interrupted_manager :: Manager where
  "interrupted_manager = init_manager (Some cancelled_processor) True False demo_clock"

text \<open>
  A request with a well-formed JSON-RPC 2.0 envelope, and the \<^verbatim>\<open>params\<close> object
  \<^verbatim>\<open>{"id": task_id}\<close>, which \<^verbatim>\<open>TaskIdParams\<close> and \<^verbatim>\<open>TaskQueryParams\<close> accept and the
  two other classes reject.
\<close>

definition rpc_request :: "string \<Rightarrow> Params \<Rightarrow> RpcId \<Rightarrow> string option \<Rightarrow> Request" where
  "rpc_request method params request_id accept =
     \<lparr>r_accept = accept,
      r_body = Dict \<lparr>e_jsonrpc = Some ''2.0'', e_method = Some method, e_params = params,
                       e_id = request_id\<rparr>\<rparr>"

definition id_params :: "string \<Rightarrow> Params" where
  "id_params task_id =
     \<lparr>as_TaskIdParams = Inr task_id,
      as_TaskQueryParams = Inr (task_id, None),
      as_TaskSendParams = Inl ''1 validation error for TaskSendParams'',
      as_TaskPushNotificationConfig = Inl ''1 validation error for TaskPushNotificationConfig''\<rparr>"

text \<open>A callback that returns a COMPLETED task with three messages of history.\<close>

definition history_processor :: "TaskSendParams \<Rightarrow> Outcome" where
  "history_processor params =
     Returned \<lparr>t_id = sp_id params, t_sessionId = sp_sessionId params,
       t_status = \<lparr>s_state = COMPLETED, s_message = None, s_timestamp = ''''\<rparr>,
       t_artifacts = Some [],
       t_history = Some [sp_message params,
                         \<lparr>m_role = ''agent'', m_parts = [TextPart ''one'']\<rparr>,
                         \<lparr>m_role = ''agent'', m_parts = [TextPart ''two'']\<rparr>]\<rparr>"

text \<open>Task \<open>t1\<close> just created on a manager with push notifications.\<close>

definition push_manager :: Manager where
  "push_manager = create_task_begin (init_manager None True True demo_clock) demo_params"

text \<open>
  \<open>begins\<close>: the first half of a \<^verbatim>\<open>create_task\<close> with the id, the one operation
  that resets the subscriber list of a task. \<open>until_final\<close>: a list of events up to
  and with its first final one, the whole list when none is final. \<open>registered\<close>: the
  queue is in the subscriber list of the task.
\<close>

fun begins :: "Action \<Rightarrow> string \<Rightarrow> bool" where
  "begins (Begin params) task_id = (sp_id params = task_id)"
| "begins (Finish params outcome) task_id = False"
| "begins (Cancel i) task_id = False"
| "begins (ArtifactUpdate i artifact fin) task_id = False"
| "begins (Subscribe i) task_id = False"
| "begins (SetPush i config) task_id = False"

definition no_begin :: "Action list \<Rightarrow> string \<Rightarrow> bool" where
  "no_begin acts task_id = list_all (\<lambda>a. \<not> begins a task_id) acts"

definition until_final :: "Event list \<Rightarrow> Event list" where
  "until_final es =
     takeWhile (\<lambda>e. \<not> final e) es @ take 1 (dropWhile (\<lambda>e. \<not> final e) es)"

definition registered :: "Manager \<Rightarrow> string \<Rightarrow> nat \<Rightarrow> bool" where
  "registered m tid q = (case task_streams m tid of None \<Rightarrow> False | Some qs \<Rightarrow> q \<in> set qs)"

text \<open>
  \<open>actions_of\<close>: the operations of a list of rounds, in their order; \<open>total_delay\<close>:
  the time they take in all. \<open>disturbs\<close>: an artifact update for the id, the
  operation that changes the list the loop over \<^verbatim>\<open>task.artifacts\<close> reads and puts
  an artifact event of the task on its queues; \<open>undisturbed\<close>: none is among the
  rounds. \<open>carries\<close>: the event yielded is the event put, with the parts of its
  artifact followed by no or more parts. \<open>appends\<close>: an artifact update with a true
  \<^verbatim>\<open>append\<close>; \<open>no_append\<close>: none is in the list.
\<close>

definition actions_of :: "Round list \<Rightarrow> Action list" where
  "actions_of rounds = map snd (concat rounds)"

definition total_delay :: "Round list \<Rightarrow> nat" where
  "total_delay rounds = sum_list (map fst (concat rounds))"

fun disturbs :: "Action \<Rightarrow> string \<Rightarrow> bool" where
  "disturbs (ArtifactUpdate i artifact fin) task_id = (i = task_id)"
| "disturbs (Begin params) task_id = False"
| "disturbs (Finish params outcome) task_id = False"
| "disturbs (Cancel i) task_id = False"
| "disturbs (Subscribe i) task_id = False"
| "disturbs (SetPush i config) task_id = False"

definition undisturbed :: "Round list \<Rightarrow> string \<Rightarrow> bool" where
  "undisturbed rounds task_id = list_all (\<lambda>a. \<not> disturbs a task_id) (actions_of rounds)"

definition carries :: "Event \<Rightarrow> Event \<Rightarrow> bool" where
  "carries update put =
     (case (update, put) of
        (TaskArtifactUpdateEvent i b g, TaskArtifactUpdateEvent j a f) \<Rightarrow>
          i = j \<and> g = f \<and> prefix (a_parts a) (a_parts b) \<and> b\<lparr>a_parts := a_parts a\<rparr> = a
      | _ \<Rightarrow> update = put)"

fun appends :: "Action \<Rightarrow> bool" where
  "appends (ArtifactUpdate i artifact fin) = (a_append artifact = Some True)"
| "appends (Begin params) = False"
| "appends (Finish params outcome) = False"
| "appends (Cancel i) = False"
| "appends (Subscribe i) = False"
| "appends (SetPush i config) = False"

definition no_append :: "Action list \<Rightarrow> bool" where
  "no_append acts = list_all (\<lambda>a. \<not> appends a) acts"

text \<open>
  The invariant of the store that the generator relies on. \<open>entry_ok\<close>: the address of
  an event put on a queue is in use, and the parts list there begins with the parts the
  event was put with; with \<open>exact\<close> it holds these parts and no more. \<open>sound\<close>: so
  it is for every event put on the queue.
\<close>

definition entry_ok :: "bool \<Rightarrow> Manager \<Rightarrow> Event \<Rightarrow> nat option \<Rightarrow> bool" where
  "entry_ok exact m update ref =
     (\<forall>x. ref = Some x \<longrightarrow>
        x < next_address m \<and>
        (\<forall>t a f. update = TaskArtifactUpdateEvent t a f \<longrightarrow>
           prefix (a_parts a) (heap m x) \<and> (exact \<longrightarrow> heap m x = a_parts a)))"

definition sound :: "bool \<Rightarrow> Manager \<Rightarrow> nat \<Rightarrow> bool" where
  "sound exact m q =
     (\<forall>i < length (queues m q). entry_ok exact m (queues m q ! i) (queue_refs m q i))"

text \<open>
  \<open>store_ok\<close>: the store agrees with the tasks. For every task id the addresses in
  \<open>artifact_refs\<close> are those of the parts lists of the stored artifacts, in their
  order, and the store holds there the parts the stored artifacts have; the addresses
  are in use, and no parts list belongs to two artifacts.
\<close>

definition store_ok :: "Manager \<Rightarrow> bool" where
  "store_ok m =
     (\<forall>task_id.
        map (heap m) (artifact_refs m task_id) = map a_parts (stored_artifacts m task_id) \<and>
        distinct (artifact_refs m task_id) \<and>
        (\<forall>x \<in> set (artifact_refs m task_id).
           x < next_address m \<and>
           (\<forall>other. other \<noteq> task_id \<longrightarrow> x \<notin> set (artifact_refs m other))))"

text \<open>
  Samples. Task \<open>t1\<close> with one artifact stored, and an artifact with another index.
  \<open>demo_rounds\<close>: nothing happens while the initial event is written; another
  subscriber arrives while the stored artifact is written; while the generator waits, one
  second later, an update adds the artifact with index 1 and an appending update extends
  it; the task is canceled while the first of the two events is written; an update comes
  while the final event is written. \<open>quiet_rounds\<close>: the first operation after the
  replay is due 300 seconds after the generator began to wait. \<open>early_rounds\<close>: an
  update for the task comes while the initial event is written.
\<close>

definition replay_manager :: Manager where
  "replay_manager =
     send_artifact_update streaming_manager ''t1'' (demo_artifact ''first'' None) False"

definition next_artifact :: "string \<Rightarrow> bool option \<Rightarrow> Artifact" where
  "next_artifact text app = (demo_artifact text app)\<lparr>a_index := 1\<rparr>"

definition demo_rounds :: "Round list" where
  "demo_rounds =
     [[],
      [(10, Subscribe ''t1'')],
      [(1000, ArtifactUpdate ''t1'' (next_artifact ''second'' None) False),
       (0, ArtifactUpdate ''t1'' (next_artifact ''more'' (Some True)) False)],
      [(2000, Cancel ''t1'')],
      [],
      [(5, ArtifactUpdate ''t1'' (demo_artifact ''late'' None) False)]]"

definition quiet_rounds :: "Round list" where
  "quiet_rounds = [[], [], [(300000, Cancel ''t1'')]]"

definition early_rounds :: "Round list" where
  "early_rounds =
     [[(0, ArtifactUpdate ''t1'' (demo_artifact ''early'' None) False)],
      [],
      [(0, Cancel ''t1'')]]"

text \<open>
  Vocabulary for the routing. \<open>registry_ok\<close>: the two dictionaries of the host hold
  the same urls in the same order, as \<^verbatim>\<open>connect_to_agent\<close> and
  \<^verbatim>\<open>disconnect_from_agent\<close> keep them, and no url is empty. An answer of a remote is
  \<open>settled\<close> when it is an exception or a task in a final state; a remote \<open>settles\<close>
  when such an answer is among what it gives. \<open>poll_calls\<close>: one sleep of 500 ms and
  one \<^verbatim>\<open>get_task\<close> for each answer before the first settled one. \<open>no_match\<close>: no
  skill id of these entries occurs in the text.
\<close>

definition registry_ok :: "Host \<Rightarrow> bool" where
  "registry_ok h =
     (map fst (agent_skills h) = map fst (remote_agents h) \<and>
      distinct (map fst (remote_agents h)) \<and>
      [] \<notin> set (map fst (remote_agents h)))"

definition settled :: "string + Task \<Rightarrow> bool" where
  "settled answer =
     (case answer of Inl e \<Rightarrow> True | Inr task \<Rightarrow> is_final_state (s_state (t_status task)))"

definition settles :: "Remote \<Rightarrow> bool" where
  "settles conn = list_ex settled (rc_send_task conn # rc_get_task conn)"

definition answer_id :: "string + Task \<Rightarrow> string" where
  "answer_id answer = (case answer of Inl e \<Rightarrow> [] | Inr task \<Rightarrow> t_id task)"

definition poll_calls :: "string \<Rightarrow> (string + Task) list \<Rightarrow> Call list" where
  "poll_calls url answers =
     concat (map (\<lambda>a. [Sleep 500, GetTask url (answer_id a)])
               (takeWhile (\<lambda>a. \<not> settled a) answers))"

definition outcome_text :: "string + Task \<Rightarrow> string" where
  "outcome_text outcome =
     (case outcome of
        Inl e \<Rightarrow> ''Error processing task with remote agent: '' @ e
      | Inr task \<Rightarrow> response_text task)"

definition no_match :: "(string \<times> string list) list \<Rightarrow> string \<Rightarrow> bool" where
  "no_match entries text =
     list_all (\<lambda>entry. \<not> list_ex (\<lambda>skill_id. sublist skill_id text) (snd entry)) entries"

text \<open>
  On a text of ASCII characters \<^verbatim>\<open>str.lower\<close> puts a-z for A-Z and keeps the rest:
  \<open>ascii_lower\<close>, the value of the input \<open>lower\<close> in the samples, whose messages are
  ASCII.
\<close>

definition ascii_lower_char :: "char \<Rightarrow> char" where
  "ascii_lower_char c =
     (case map_of (zip ''ABCDEFGHIJKLMNOPQRSTUVWXYZ'' ''abcdefghijklmnopqrstuvwxyz'') c of
        None \<Rightarrow> c
      | Some d \<Rightarrow> d)"

definition ascii_lower :: "string \<Rightarrow> string" where
  "ascii_lower s = map ascii_lower_char s"

text \<open>
  A host with one remote that advertises the skill \<open>aws-to-gcp\<close>: one whose task
  completes at the second poll with two text artifacts, and one whose task is completed
  at once with neither status message nor artifact.
\<close>

definition remote_task :: "TaskState \<Rightarrow> Message option \<Rightarrow> Artifact list \<Rightarrow> Task" where
  "remote_task st msg arts =
     \<lparr>t_id = ''r1'', t_sessionId = None,
      t_status = \<lparr>s_state = st, s_message = msg, s_timestamp = []\<rparr>,
      t_artifacts = Some arts, t_history = None\<rparr>"

definition demo_host :: "string + Task \<Rightarrow> (string + Task) list \<Rightarrow> Host" where
  "demo_host sent answers =
     \<lparr>remote_agents =
        [(''http://remote'',
          \<lparr>rc_card_name = ''Code Conversion Agent'', rc_send_task = sent,
            rc_get_task = answers\<rparr>)],
      agent_skills = [(''http://remote'', [''aws-to-gcp''])]\<rparr>"

definition working_host :: Host where
  "working_host =
     demo_host (Inr (remote_task WORKING None []))
       [Inr (remote_task WORKING None []),
        Inr (remote_task COMPLETED None
               [demo_artifact ''converted'' None, demo_artifact ''done'' None])]"

definition silent_host :: Host where
  "silent_host = demo_host (Inr (remote_task COMPLETED None [])) []"

text \<open>
  A decoded frame that is a JSON object with neither a key \<^verbatim>\<open>status\<close> nor a key
  \<^verbatim>\<open>artifact\<close>; and a sample: the text of an error frame of the server, with a decoder
  that knows this one text.
\<close>

definition unknown_object :: "Json \<Rightarrow> bool" where
  "unknown_object event_json =
     (case event_json of
        JObject members \<Rightarrow>
          ''status'' \<notin> set (map fst members) \<and> ''artifact'' \<notin> set (map fst members)
      | _ \<Rightarrow> False)"

definition demo_error_text :: string where
  \<open>demo_error_text = ''{"error": {"code": -32603, "message": "Streaming error: boom"}}''\<close>

definition demo_codec :: Codec where
  "demo_codec =
     \<lparr>json_loads = (\<lambda>s. if s = demo_error_text
                          then Some (error_event_json
                                       (ErrorFrame (- 32603) ''Streaming error: boom''))
                          else None),
      status_event = (\<lambda>members. Inl ''validation error''),
      artifact_event = (\<lambda>members. Inl ''validation error'')\<rparr>"

section \<open>Properties\<close>

subsection \<open>Effect of the operations on the fields of the manager\<close>

lemma put_all_queues:
  "queues (put_all m qs ev r) q = queues m q @ replicate (count_list qs q) ev"
  unfolding put_all_def
  by (induction qs arbitrary: m) (auto simp: put_nowait_def replicate_append_same)

lemma put_all_other [simp]:
  "tasks (put_all m qs ev r) = tasks m"
  "task_streams (put_all m qs ev r) = task_streams m"
  "push_notifications (put_all m qs ev r) = push_notifications m"
  "supports_streaming (put_all m qs ev r) = supports_streaming m"
  "supports_push_notifications (put_all m qs ev r) = supports_push_notifications m"
  "task_processor (put_all m qs ev r) = task_processor m"
  "next_queue (put_all m qs ev r) = next_queue m"
  "clock (put_all m qs ev r) = clock m"
  "ticks (put_all m qs ev r) = ticks m"
  "heap (put_all m qs ev r) = heap m"
  "next_address (put_all m qs ev r) = next_address m"
  "artifact_refs (put_all m qs ev r) = artifact_refs m"
  unfolding put_all_def
  by (induction qs arbitrary: m; simp add: put_nowait_def)+

lemma put_all_refs:
  "queue_refs (put_all m qs ev r) q i =
     (if length (queues m q) \<le> i \<and> i < length (queues m q) + count_list qs q then r
      else queue_refs m q i)"
proof (induction qs arbitrary: m)
  case Nil
  then show ?case by (auto simp: put_all_def)
next
  case (Cons a qs)
  have c: "put_all m (a # qs) ev r = put_all (put_nowait m a ev r) qs ev r"
    by (simp add: put_all_def)
  show ?case
    unfolding c Cons.IH by (auto simp: put_nowait_def)
qed

lemma store_artifacts_other [simp]:
  "tasks (store_artifacts m i arts) = tasks m"
  "task_streams (store_artifacts m i arts) = task_streams m"
  "push_notifications (store_artifacts m i arts) = push_notifications m"
  "supports_streaming (store_artifacts m i arts) = supports_streaming m"
  "supports_push_notifications (store_artifacts m i arts) = supports_push_notifications m"
  "task_processor (store_artifacts m i arts) = task_processor m"
  "queues (store_artifacts m i arts) = queues m"
  "queue_refs (store_artifacts m i arts) = queue_refs m"
  "next_queue (store_artifacts m i arts) = next_queue m"
  "clock (store_artifacts m i arts) = clock m"
  "ticks (store_artifacts m i arts) = ticks m"
  by (simp_all add: store_artifacts_def Let_def)

lemma send_status_update_other [simp]:
  "tasks (send_status_update m t) = tasks m"
  "task_streams (send_status_update m t) = task_streams m"
  "push_notifications (send_status_update m t) = push_notifications m"
  "supports_streaming (send_status_update m t) = supports_streaming m"
  "supports_push_notifications (send_status_update m t) = supports_push_notifications m"
  "task_processor (send_status_update m t) = task_processor m"
  "next_queue (send_status_update m t) = next_queue m"
  "heap (send_status_update m t) = heap m"
  "next_address (send_status_update m t) = next_address m"
  "artifact_refs (send_status_update m t) = artifact_refs m"
  by (simp_all add: send_status_update_def split: option.splits)

lemma send_status_update_queues:
  "queues (send_status_update m t) q =
     queues m q @
       (if supports_streaming m
        then (case task_streams m (t_id t) of
                None \<Rightarrow> []
              | Some qs \<Rightarrow>
                  replicate (count_list qs q)
                    (TaskStatusUpdateEvent (t_id t) (t_status t)
                       (is_final_state (s_state (t_status t)))))
        else [])"
  by (simp add: send_status_update_def put_all_queues split: option.splits)

lemma cancel_task_final:
  assumes "tasks m tid = Some t" "is_final_state (s_state (t_status t))"
  shows "cancel_task m tid =
           Inl (ValueError ''Task is already in a final state and cannot be canceled'')"
  using assms by (simp add: cancel_task_def)

lemma cancel_task_tasks:
  assumes "cancel_task m i = Inr (t', m')"
  shows "tasks m' = (tasks m)(i \<mapsto> t')"
  using assms
  by (auto simp: cancel_task_def get_iso_timestamp_def Let_def split: option.splits if_splits)

lemma create_task_begin_tasks_other:
  "sp_id p \<noteq> tid \<Longrightarrow> tasks (create_task_begin m p) tid = tasks m tid"
  by (simp add: create_task_begin_def get_iso_timestamp_def Let_def split: option.splits)

lemma create_task_finish_tasks_other:
  "create_task_finish m p out = Inr (t', m') \<Longrightarrow> sp_id p \<noteq> tid \<Longrightarrow> tasks m' tid = tasks m tid"
  by (auto simp: create_task_finish_def get_iso_timestamp_def Let_def
      split: option.splits Outcome.splits)

lemma send_artifact_update_tasks_other:
  "i \<noteq> tid \<Longrightarrow> tasks (send_artifact_update m i a f) tid = tasks m tid"
  by (simp add: send_artifact_update_def Let_def split: option.splits prod.splits)

lemma subscribe_tasks: "subscribe m i = Inr (q, m') \<Longrightarrow> tasks m' = tasks m"
  by (auto simp: subscribe_def Let_def split: if_splits)

lemma set_push_tasks: "set_push_notification m i c = Inr (r, m') \<Longrightarrow> tasks m' = tasks m"
  by (auto simp: set_push_notification_def split: if_splits)

lemma create_task_finish_raised:
  assumes "tasks m (sp_id p) = Some task"
  shows "create_task_finish m p (Raised e) =
     Inr (task\<lparr>t_status := \<lparr>s_state = FAILED,
                 s_message = Some \<lparr>m_role = ''agent'',
                    m_parts = [TextPart (''Task processing failed: '' @ e)]\<rparr>,
                 s_timestamp = clock m (ticks m)\<rparr>\<rparr>,
          send_status_update
            (m\<lparr>ticks := Suc (ticks m),
               tasks := (tasks m)(sp_id p \<mapsto> task\<lparr>t_status := \<lparr>s_state = FAILED,
                 s_message = Some \<lparr>m_role = ''agent'',
                    m_parts = [TextPart (''Task processing failed: '' @ e)]\<rparr>,
                 s_timestamp = clock m (ticks m)\<rparr>\<rparr>)\<rparr>)
            (task\<lparr>t_status := \<lparr>s_state = FAILED,
                 s_message = Some \<lparr>m_role = ''agent'',
                    m_parts = [TextPart (''Task processing failed: '' @ e)]\<rparr>,
                 s_timestamp = clock m (ticks m)\<rparr>\<rparr>))"
  using assms by (simp add: create_task_finish_def get_iso_timestamp_def Let_def)

lemma send_artifact_update_stored:
  assumes "supports_streaming m" "task_streams m tid = Some qs" "tasks m tid = Some task"
  shows "tasks (send_artifact_update m tid u fin) tid =
           Some (task\<lparr>t_artifacts :=
             Some (case merge_artifact (artifacts_of task) u of
                     (merged, updated) \<Rightarrow>
                       if updated then merged else artifacts_of task @ [u])\<rparr>)"
  using assms
  by (simp add: send_artifact_update_def artifacts_of_def Let_def split: prod.splits)

lemma create_task_begin_flags [simp]:
  "supports_streaming (create_task_begin m p) = supports_streaming m"
  "task_processor (create_task_begin m p) = task_processor m"
  "supports_push_notifications (create_task_begin m p) = supports_push_notifications m"
  by (simp_all add: create_task_begin_def get_iso_timestamp_def Let_def split: option.splits)

lemmas demo_defs =
  init_manager_def create_task_begin_def demo_params_def demo_clock_def demo_artifact_def
  get_iso_timestamp_def cancel_task_def is_final_state_def send_status_update_def
  put_all_def put_nowait_def send_artifact_update_def Let_def

subsection \<open>Terminal states\<close>

text \<open>
  C1 does not hold of the code. \<^verbatim>\<open>cancel_task\<close> is the one operation that looks at
  the state before it writes: on a task in a final state it raises. The others write
  whatever the state is. The second half of \<^verbatim>\<open>create_task\<close> stores the task the
  callback returned, or with a raising callback the status FAILED, over a task that was
  canceled while the callback ran; a \<^verbatim>\<open>create_task\<close> with the id of a terminal task
  puts a new SUBMITTED or WORKING task in its place; and on a manager with streaming
  \<^verbatim>\<open>send_artifact_update\<close> merges into the artifact list of a terminal task as into any
  other.
\<close>

theorem terminal_task_overwritten:
  assumes "tasks m task_id = Some task"
    and "is_final_state (s_state (t_status task))"
    and "sp_id params = task_id"
  shows "cancel_task m task_id =
           Inl (ValueError ''Task is already in a final state and cannot be canceled'') \<and>
         (\<exists>m'. create_task_finish m params (Returned result) = Inr (result, m') \<and>
            tasks m' task_id = Some result) \<and>
         (\<exists>m'. create_task_finish m params (Raised e) =
                  Inr (task\<lparr>t_status := \<lparr>s_state = FAILED,
                          s_message = Some \<lparr>m_role = ''agent'',
                            m_parts = [TextPart (''Task processing failed: '' @ e)]\<rparr>,
                          s_timestamp = clock m (ticks m)\<rparr>\<rparr>, m') \<and>
            tasks m' task_id =
              Some (task\<lparr>t_status := \<lparr>s_state = FAILED,
                      s_message = Some \<lparr>m_role = ''agent'',
                        m_parts = [TextPart (''Task processing failed: '' @ e)]\<rparr>,
                      s_timestamp = clock m (ticks m)\<rparr>\<rparr>)) \<and>
         (\<exists>task'. tasks (create_task_begin m params) task_id = Some task' \<and>
            s_state (t_status task') \<in> set [SUBMITTED, WORKING] \<and>
            t_artifacts task' = Some []) \<and>
         (supports_streaming m \<and> task_streams m task_id \<noteq> None \<longrightarrow>
            tasks (send_artifact_update m task_id artifact fin) task_id =
              Some (task\<lparr>t_artifacts :=
                Some (case merge_artifact (artifacts_of task) artifact of
                        (merged, updated) \<Rightarrow>
                          if updated then merged else artifacts_of task @ [artifact])\<rparr>))"
proof -
  have 1: "cancel_task m task_id =
           Inl (ValueError ''Task is already in a final state and cannot be canceled'')"
    using assms(1,2) by (rule cancel_task_final)
  have 2: "\<exists>m'. create_task_finish m params (Returned result) = Inr (result, m') \<and>
            tasks m' task_id = Some result"
    using assms(3) by (simp add: create_task_finish_def Let_def)
  have 3: "\<exists>m'. create_task_finish m params (Raised e) =
                  Inr (task\<lparr>t_status := \<lparr>s_state = FAILED,
                          s_message = Some \<lparr>m_role = ''agent'',
                            m_parts = [TextPart (''Task processing failed: '' @ e)]\<rparr>,
                          s_timestamp = clock m (ticks m)\<rparr>\<rparr>, m') \<and>
            tasks m' task_id =
              Some (task\<lparr>t_status := \<lparr>s_state = FAILED,
                      s_message = Some \<lparr>m_role = ''agent'',
                        m_parts = [TextPart (''Task processing failed: '' @ e)]\<rparr>,
                      s_timestamp = clock m (ticks m)\<rparr>\<rparr>)"
    using assms(1,3) by (simp add: create_task_finish_raised)
  have 4: "\<exists>task'. tasks (create_task_begin m params) task_id = Some task' \<and>
            s_state (t_status task') \<in> set [SUBMITTED, WORKING] \<and>
            t_artifacts task' = Some []"
    using assms(3)
    by (simp add: create_task_begin_def get_iso_timestamp_def Let_def split: option.splits)
  have 5: "tasks (send_artifact_update m task_id artifact fin) task_id =
              Some (task\<lparr>t_artifacts :=
                Some (case merge_artifact (artifacts_of task) artifact of
                        (merged, updated) \<Rightarrow>
                          if updated then merged else artifacts_of task @ [artifact])\<rparr>)"
    if "supports_streaming m \<and> task_streams m task_id \<noteq> None"
    using that assms(1) by (auto simp: send_artifact_update_stored)
  show ?thesis using 1 2 3 4 5 by blast
qed

text \<open>
  The instance. Task \<open>t1\<close> is canceled while its callback runs; when the callback
  returns its COMPLETED task, \<^verbatim>\<open>create_task\<close> stores it: the task goes from CANCELED to
  COMPLETED. And an artifact update that comes after the cancellation is stored.
\<close>

theorem terminal_task_overwritten_witness:
  "map_option (\<lambda>t. s_state (t_status t)) (tasks overtaken_manager ''t1'') = Some CANCELED \<and>
   is_final_state CANCELED \<and> sp_id demo_params = ''t1'' \<and>
   (case create_task completing_manager demo_params [Cancel ''t1''] of
      (r, m') \<Rightarrow> (map_sum id (\<lambda>t. s_state (t_status t)) r,
                  map_option (\<lambda>t. s_state (t_status t)) (tasks m' ''t1'')))
     = (Inr COMPLETED, Some COMPLETED) \<and>
   map_option (\<lambda>t. (s_state (t_status t), t_artifacts t))
     (tasks (send_artifact_update overtaken_manager ''t1'' (demo_artifact ''late'' None) False)
        ''t1'')
     = Some (CANCELED, Some [demo_artifact ''late'' None])"
proof -
  obtain t where t: "tasks overtaken_manager ''t1'' = Some t"
    "s_state (t_status t) = CANCELED" "t_artifacts t = Some []"
    by (simp add: overtaken_manager_def completing_manager_def run_actions_def demo_defs)
  have f: "is_final_state (s_state (t_status t))" "is_final_state CANCELED"
    using t(2) by (simp_all add: is_final_state_def)
  have p: "sp_id demo_params = ''t1''" by (simp add: demo_params_def)
  have s: "supports_streaming overtaken_manager \<and> task_streams overtaken_manager ''t1'' \<noteq> None"
    by (simp add: overtaken_manager_def completing_manager_def run_actions_def demo_defs)
  have tp: "task_processor completing_manager = Some completing_processor"
    by (simp add: completing_manager_def init_manager_def)
  have c: "create_task completing_manager demo_params [Cancel ''t1''] =
             (case create_task_finish overtaken_manager demo_params
                     (completing_processor demo_params) of
                Inl e \<Rightarrow> (Inl e, overtaken_manager)
              | Inr (stored, m3) \<Rightarrow> (Inr stored, m3))"
    unfolding overtaken_manager_def
    by (simp add: create_task_def Let_def tp)
  obtain result where r: "completing_processor demo_params = Returned result"
    "s_state (t_status result) = COMPLETED"
    by (simp add: completing_processor_def)
  from terminal_task_overwritten[OF t(1) f(1) p, of result "[]"
      "demo_artifact ''late'' None" False] s
  obtain m' where fin: "create_task_finish overtaken_manager demo_params (Returned result)
        = Inr (result, m')" "tasks m' ''t1'' = Some result"
    and upd: "tasks (send_artifact_update overtaken_manager ''t1''
                (demo_artifact ''late'' None) False) ''t1'' =
              Some (t\<lparr>t_artifacts :=
                Some (case merge_artifact (artifacts_of t) (demo_artifact ''late'' None) of
                        (merged, updated) \<Rightarrow>
                          if updated then merged
                          else artifacts_of t @ [demo_artifact ''late'' None])\<rparr>)"
    by blast
  show ?thesis
    using t f(2) p c r fin upd by (simp add: artifacts_of_def)
qed

subsection \<open>Artifact updates\<close>

lemma merge_artifact_absent:
  "a_index u \<notin> a_index ` set arts \<Longrightarrow> merge_artifact arts u = (arts, False)"
  by (induction arts) auto

lemma merge_artifact_present:
  "a_index u \<notin> a_index ` set pre \<Longrightarrow> a_index e = a_index u \<Longrightarrow>
   merge_artifact (pre @ e # post) u = (pre @ merged_artifact e u # post, True)"
  by (induction pre) (auto simp: merged_artifact_def)

lemma merged_artifact_index:
  "a_index e = a_index u \<Longrightarrow> a_index (merged_artifact e u) = a_index u"
  by (simp add: merged_artifact_def)

lemma send_artifact_update_streams [simp]:
  "task_streams (send_artifact_update m tid u fin) = task_streams m"
  "supports_streaming (send_artifact_update m tid u fin) = supports_streaming m"
  by (simp_all add: send_artifact_update_def Let_def split: option.splits prod.splits)

lemma update_absent:
  assumes "supports_streaming m" "task_streams m tid = Some qs" "tasks m tid = Some task"
    and "a_index u \<notin> a_index ` set (artifacts_of task)"
  shows "tasks (send_artifact_update m tid u fin) tid =
           Some (task\<lparr>t_artifacts := Some (artifacts_of task @ [u])\<rparr>)"
  using assms by (simp add: send_artifact_update_stored merge_artifact_absent)

lemma update_present:
  assumes "supports_streaming m" "task_streams m tid = Some qs" "tasks m tid = Some task"
    and "artifacts_of task = pre @ e # post" "a_index e = a_index u"
    and "a_index u \<notin> a_index ` set pre"
  shows "tasks (send_artifact_update m tid u fin) tid =
           Some (task\<lparr>t_artifacts := Some (pre @ merged_artifact e u # post)\<rparr>)"
  using assms by (simp add: send_artifact_update_stored merge_artifact_present)

lemma split_at_index:
  "i \<in> a_index ` set arts \<Longrightarrow>
   \<exists>pre e post. arts = pre @ e # post \<and> a_index e = i \<and> i \<notin> a_index ` set pre"
proof (induction arts)
  case Nil
  then show ?case by simp
next
  case (Cons x xs)
  show ?case
  proof (cases "a_index x = i")
    case True
    then have "x # xs = [] @ x # xs \<and> a_index x = i \<and> i \<notin> a_index ` set []" by simp
    then show ?thesis by blast
  next
    case False
    with Cons obtain pre e post where "xs = pre @ e # post" "a_index e = i"
      "i \<notin> a_index ` set pre" by auto
    with False have "x # xs = (x # pre) @ e # post \<and> a_index e = i \<and>
      i \<notin> a_index ` set (x # pre)" by auto
    then show ?thesis by blast
  qed
qed

lemma artifacts_of_update [simp]:
  "artifacts_of (task\<lparr>t_artifacts := Some xs\<rparr>) = xs"
  by (simp add: artifacts_of_def)

lemma decomposition_unique:
  assumes "distinct (map a_index arts)"
    and "arts = pre @ e # post" "a_index e = i"
    and "arts = pre' @ e' # post'" "a_index e' = i"
  shows "pre' = pre \<and> e' = e \<and> post' = post"
proof -
  have eq: "pre @ e # post = pre' @ e' # post'" using assms by simp
  have d: "distinct (map a_index (pre @ e # post))" using assms by simp
  have d': "distinct (map a_index (pre' @ e' # post'))" using assms by simp
  have 1: "i \<notin> a_index ` set pre" "i \<notin> a_index ` set post" using d assms(3) by auto
  have 2: "i \<notin> a_index ` set pre'" "i \<notin> a_index ` set post'" using d' assms(5) by auto
  have e_in: "e \<in> set (pre' @ e' # post')" using eq[symmetric] by simp
  have "e \<notin> set pre'" "e \<notin> set post'" using 2 assms(3) by auto
  with e_in have ee: "e = e'" by simp
  have "length pre = length pre'"
  proof (rule ccontr)
    assume ne: "length pre \<noteq> length pre'"
    show False
    proof (cases "length pre < length pre'")
      case True
      have "(pre' @ e' # post') ! length pre = pre' ! length pre"
        using True by (simp add: nth_append)
      moreover have "(pre @ e # post) ! length pre = e" by simp
      ultimately have "pre' ! length pre = e" using eq by simp
      then have "e \<in> set pre'" using True nth_mem by metis
      with \<open>e \<notin> set pre'\<close> show False by simp
    next
      case False
      with ne have lt: "length pre' < length pre" by simp
      have "(pre @ e # post) ! length pre' = pre ! length pre'"
        using lt by (simp add: nth_append)
      moreover have "(pre' @ e' # post') ! length pre' = e'" by simp
      ultimately have "pre ! length pre' = e'" using eq by simp
      then have "e' \<in> set pre" using lt nth_mem by metis
      with 1 assms(5) show False by auto
    qed
  qed
  with eq show ?thesis by simp
qed

lemma artifact_update_once:
  assumes "supports_streaming m" and "task_streams m task_id = Some qs"
    and "tasks m task_id = Some task"
    and "distinct (map a_index (artifacts_of task))"
  shows "\<exists>task'. tasks (send_artifact_update m task_id u fin) task_id = Some task' \<and>
           distinct (map a_index (artifacts_of task')) \<and>
           (\<forall>pre e post. artifacts_of task = pre @ e # post \<and> a_index e = a_index u \<longrightarrow>
              artifacts_of task' = pre @ merged_artifact e u # post) \<and>
           (a_index u \<notin> a_index ` set (artifacts_of task) \<longrightarrow>
              artifacts_of task' = artifacts_of task @ [u])"
proof (cases "a_index u \<in> a_index ` set (artifacts_of task)")
  case False
  let ?task' = "task\<lparr>t_artifacts := Some (artifacts_of task @ [u])\<rparr>"
  have st: "tasks (send_artifact_update m task_id u fin) task_id = Some ?task'"
    using assms False by (simp add: update_absent)
  have d: "distinct (map a_index (artifacts_of ?task'))"
    using assms(4) False by simp
  have no: "\<not> (artifacts_of task = pre @ e # post \<and> a_index e = a_index u)" for pre e post
    using False by force
  show ?thesis
    using st d no by simp
next
  case True
  from split_at_index[OF this]
  obtain pre e post where sp: "artifacts_of task = pre @ e # post" "a_index e = a_index u"
    "a_index u \<notin> a_index ` set pre"
    by blast
  let ?task' = "task\<lparr>t_artifacts := Some (pre @ merged_artifact e u # post)\<rparr>"
  have st: "tasks (send_artifact_update m task_id u fin) task_id = Some ?task'"
    using assms sp by (simp add: update_present)
  have d0: "distinct (map a_index (pre @ e # post))" using assms(4) sp by simp
  have d: "distinct (map a_index (artifacts_of ?task'))"
    using d0 sp by (simp add: merged_artifact_index)
  have uniq: "artifacts_of ?task' = pre' @ merged_artifact e' u # post'"
    if "artifacts_of task = pre' @ e' # post' \<and> a_index e' = a_index u" for pre' e' post'
    using decomposition_unique[OF assms(4) sp(1) sp(2), of pre' e' post'] that by simp
  show ?thesis
    using st d True uniq by blast
qed

lemma filter_distinct_index:
  assumes "distinct (map f (P @ x # Q))"
  shows "filter (\<lambda>a. f a = f x) (P @ x # Q) = [x]"
proof -
  have "f x \<notin> f ` set P" "f x \<notin> f ` set Q" using assms by auto
  then have "filter (\<lambda>a. f a = f x) P = []" "filter (\<lambda>a. f a = f x) Q = []"
    by (auto simp: filter_empty_conv image_iff)
  then show ?thesis by simp
qed

lemma artifact_update_twice:
  assumes "supports_streaming m" and "task_streams m task_id = Some qs"
    and "tasks m task_id = Some task"
    and "distinct (map a_index (artifacts_of task))"
    and "a_append u \<noteq> Some True" and "a_index u' = a_index u" and "a_append u' = Some True"
  shows "map_option (\<lambda>t. filter (\<lambda>a. a_index a = a_index u) (artifacts_of t))
           (tasks (send_artifact_update (send_artifact_update m task_id u fin)
                     task_id u' fin') task_id)
         = Some [u\<lparr>a_parts := a_parts u @ a_parts u'\<rparr>]"
proof -
  let ?m1 = "send_artifact_update m task_id u fin"
  from artifact_update_once[OF assms(1-4), of u fin]
  obtain task1 where t1: "tasks ?m1 task_id = Some task1"
    "distinct (map a_index (artifacts_of task1))"
    and pres: "\<And>pre e post. artifacts_of task = pre @ e # post \<and> a_index e = a_index u
           \<Longrightarrow> artifacts_of task1 = pre @ merged_artifact e u # post"
    and abs: "a_index u \<notin> a_index ` set (artifacts_of task)
           \<Longrightarrow> artifacts_of task1 = artifacts_of task @ [u]"
    by blast
  have mu: "merged_artifact e u = u" for e using assms(5) by (simp add: merged_artifact_def)
  have "\<exists>P Q. artifacts_of task1 = P @ u # Q"
  proof (cases "a_index u \<in> a_index ` set (artifacts_of task)")
    case True
    from split_at_index[OF this] obtain pre e post where
      "artifacts_of task = pre @ e # post \<and> a_index e = a_index u" by blast
    from pres[OF this] show ?thesis unfolding mu by blast
  next
    case False
    from abs[OF this] have "artifacts_of task1 = artifacts_of task @ u # []" by simp
    then show ?thesis by blast
  qed
  then obtain P Q where pq: "artifacts_of task1 = P @ u # Q" by blast
  have s1: "supports_streaming ?m1" "task_streams ?m1 task_id = Some qs"
    using assms(1,2) by simp_all
  from artifact_update_once[OF s1 t1, of u' fin']
  obtain task2 where t2: "tasks (send_artifact_update ?m1 task_id u' fin') task_id = Some task2"
    "distinct (map a_index (artifacts_of task2))"
    and pres2: "\<And>pre e post. artifacts_of task1 = pre @ e # post \<and> a_index e = a_index u'
           \<Longrightarrow> artifacts_of task2 = pre @ merged_artifact e u' # post"
    by blast
  have a2: "artifacts_of task2 = P @ merged_artifact u u' # Q"
    using pres2[of P u Q] pq assms(6) by simp
  have ix: "a_index (merged_artifact u u') = a_index u"
    using assms(6) by (simp add: merged_artifact_def)
  have "filter (\<lambda>a. a_index a = a_index (merged_artifact u u')) (P @ merged_artifact u u' # Q)
          = [merged_artifact u u']"
    using t2(2) unfolding a2 by (rule filter_distinct_index)
  then have "filter (\<lambda>a. a_index a = a_index u) (artifacts_of task2) = [merged_artifact u u']"
    by (simp add: ix a2)
  then show ?thesis using t2(1) assms(7) by (simp add: merged_artifact_def)
qed

text \<open>
  C5, as the code has it. \<^verbatim>\<open>send_artifact_update\<close> returns at once on a manager without
  streaming and for a task without subscriber list. Elsewhere, for a stored task whose
  artifacts have pairwise different indices (a new task has none): the indices stay
  pairwise different; an update with the index of a stored artifact takes its place, or
  with a true \<^verbatim>\<open>append\<close> extends its parts; an update with a new index goes to the end;
  and after an update without \<^verbatim>\<open>append\<close> and one with \<^verbatim>\<open>append\<close> at the same index
  the one artifact stored with that index has the parts of the first followed by the
  parts of the second.
\<close>

theorem artifact_update_merges:
  assumes "supports_streaming m" and "task_streams m task_id = Some qs"
    and "tasks m task_id = Some task"
    and "distinct (map a_index (artifacts_of task))"
  shows "(\<exists>task'. tasks (send_artifact_update m task_id u fin) task_id = Some task' \<and>
           distinct (map a_index (artifacts_of task')) \<and>
           (\<forall>pre e post. artifacts_of task = pre @ e # post \<and> a_index e = a_index u \<longrightarrow>
              artifacts_of task' = pre @ merged_artifact e u # post) \<and>
           (a_index u \<notin> a_index ` set (artifacts_of task) \<longrightarrow>
              artifacts_of task' = artifacts_of task @ [u])) \<and>
         (a_append u \<noteq> Some True \<and> a_index u' = a_index u \<and> a_append u' = Some True \<longrightarrow>
            map_option (\<lambda>t. filter (\<lambda>a. a_index a = a_index u) (artifacts_of t))
              (tasks (send_artifact_update (send_artifact_update m task_id u fin)
                        task_id u' fin') task_id)
            = Some [u\<lparr>a_parts := a_parts u @ a_parts u'\<rparr>])"
  using artifact_update_once[OF assms, of u fin] artifact_update_twice[OF assms, of u u' fin fin']
  by blast

theorem artifact_update_merges_witness:
  "supports_streaming streaming_manager \<and>
   task_streams streaming_manager ''t1'' = Some [] \<and>
   map_option (\<lambda>t. distinct (map a_index (artifacts_of t))) (tasks streaming_manager ''t1'')
     = Some True \<and>
   map_option (\<lambda>t. filter (\<lambda>a. a_index a = 0) (artifacts_of t))
     (tasks (send_artifact_update
               (send_artifact_update streaming_manager ''t1'' (demo_artifact ''a'' None) False)
               ''t1'' (demo_artifact ''b'' (Some True)) True) ''t1'')
     = Some [(demo_artifact ''a'' None)\<lparr>a_parts := [TextPart ''a'', TextPart ''b'']\<rparr>]"
proof -
  obtain t where t: "tasks streaming_manager ''t1'' = Some t"
    "distinct (map a_index (artifacts_of t))"
    by (simp add: streaming_manager_def demo_defs artifacts_of_def)
  have s: "supports_streaming streaming_manager" "task_streams streaming_manager ''t1'' = Some []"
    by (simp_all add: streaming_manager_def demo_defs)
  from artifact_update_merges[OF s t, of "demo_artifact ''a'' None" False
      "demo_artifact ''b'' (Some True)" True] s t
  show ?thesis by (simp add: demo_artifact_def)
qed

text \<open>
  C5 as stated fails on a manager without streaming: after the two updates of the claim
  the task stores no artifact with that index.
\<close>

theorem artifact_update_dropped_counterexample:
  "map_option (\<lambda>t. filter (\<lambda>a. a_index a = 0) (artifacts_of t))
     (tasks (send_artifact_update
               (send_artifact_update plain_manager ''t1'' (demo_artifact ''a'' None) False)
               ''t1'' (demo_artifact ''b'' (Some True)) True) ''t1'')
     = Some []"
  by (simp add: plain_manager_def demo_defs artifacts_of_def)

subsection \<open>A failing callback\<close>

lemma create_task_finish_flags:
  assumes "create_task_finish m p out = Inr (t, m')"
  shows "supports_streaming m' = supports_streaming m"
    "task_processor m' = task_processor m"
    "supports_push_notifications m' = supports_push_notifications m"
    "task_streams m' = task_streams m"
  using assms
  by (auto simp: create_task_finish_def get_iso_timestamp_def Let_def
      split: option.splits Outcome.splits)

lemma cancel_task_flags:
  assumes "cancel_task m i = Inr (t, m')"
  shows "supports_streaming m' = supports_streaming m"
    "task_processor m' = task_processor m"
    "supports_push_notifications m' = supports_push_notifications m"
    "task_streams m' = task_streams m"
  using assms
  by (auto simp: cancel_task_def get_iso_timestamp_def Let_def split: option.splits if_splits)

lemma send_artifact_update_flags [simp]:
  "task_processor (send_artifact_update m i a f) = task_processor m"
  "supports_push_notifications (send_artifact_update m i a f) = supports_push_notifications m"
  by (simp_all add: send_artifact_update_def Let_def split: option.splits prod.splits)

lemma subscribe_flags:
  assumes "subscribe m i = Inr (q, m')"
  shows "supports_streaming m' = supports_streaming m"
    "task_processor m' = task_processor m"
    "supports_push_notifications m' = supports_push_notifications m"
  using assms by (auto simp: subscribe_def Let_def split: if_splits)

lemma set_push_flags:
  assumes "set_push_notification m i c = Inr (r, m')"
  shows "supports_streaming m' = supports_streaming m"
    "task_processor m' = task_processor m"
    "supports_push_notifications m' = supports_push_notifications m"
    "task_streams m' = task_streams m"
  using assms by (auto simp: set_push_notification_def split: if_splits)

lemma apply_action_flags [simp]:
  "supports_streaming (apply_action m a) = supports_streaming m"
  "task_processor (apply_action m a) = task_processor m"
  "supports_push_notifications (apply_action m a) = supports_push_notifications m"
  by (cases a; auto split: sum.splits
      dest: create_task_finish_flags cancel_task_flags subscribe_flags set_push_flags)+

lemma run_actions_flags [simp]:
  "supports_streaming (run_actions m acts) = supports_streaming m"
  "task_processor (run_actions m acts) = task_processor m"
  "supports_push_notifications (run_actions m acts) = supports_push_notifications m"
  unfolding run_actions_def by (induction acts arbitrary: m; simp)+

lemma apply_action_task_id:
  assumes "\<not> creates a tid"
  shows "map_option t_id (tasks (apply_action m a) tid) = map_option t_id (tasks m tid)"
proof (cases a)
  case (Begin p)
  with assms show ?thesis by (simp add: create_task_begin_tasks_other)
next
  case (Finish p out)
  with assms show ?thesis
    by (auto split: sum.splits dest: create_task_finish_tasks_other[where tid = tid])
next
  case (Cancel i)
  then show ?thesis
    by (auto simp: cancel_task_def get_iso_timestamp_def Let_def
        split: sum.splits option.splits if_splits)
next
  case (ArtifactUpdate i art f)
  then show ?thesis
    by (cases "i = tid")
       (auto simp: send_artifact_update_def Let_def split: option.splits prod.splits)
next
  case (Subscribe i)
  then show ?thesis by (auto split: sum.splits dest: subscribe_tasks)
next
  case (SetPush i c)
  then show ?thesis by (auto split: sum.splits dest: set_push_tasks)
qed

lemma run_actions_task_id:
  "no_create acts tid \<Longrightarrow>
   map_option t_id (tasks (run_actions m acts) tid) = map_option t_id (tasks m tid)"
  unfolding run_actions_def no_create_def
  by (induction acts arbitrary: m) (simp_all add: apply_action_task_id)

lemma subscribe_streams:
  assumes "subscribe m i = Inr (q, m')"
  shows "task_streams m' = (task_streams m)(i \<mapsto>
           (case task_streams m i of None \<Rightarrow> [] | Some qs \<Rightarrow> qs) @ [q])"
  using assms by (auto simp: subscribe_def Let_def split: if_splits)

lemma create_task_begin_streams:
  "task_streams (create_task_begin m p) =
     (if supports_streaming m then (task_streams m)(sp_id p \<mapsto> []) else task_streams m)"
  by (simp add: create_task_begin_def get_iso_timestamp_def Let_def split: option.splits)

lemma apply_action_streams_dom:
  "task_streams m tid \<noteq> None \<Longrightarrow> task_streams (apply_action m a) tid \<noteq> None"
  by (cases a)
     (auto simp: create_task_begin_streams split: sum.splits
       dest: create_task_finish_flags cancel_task_flags subscribe_streams set_push_flags)

lemma run_actions_streams_dom:
  "task_streams m tid \<noteq> None \<Longrightarrow> task_streams (run_actions m acts) tid \<noteq> None"
  unfolding run_actions_def
  by (induction acts arbitrary: m) (simp_all del: not_None_eq add: apply_action_streams_dom)

lemma create_task_begin_stored:
  "\<exists>t. tasks (create_task_begin m p) (sp_id p) = Some t \<and> t_id t = sp_id p"
  by (simp add: create_task_begin_def get_iso_timestamp_def Let_def split: option.splits)




subsection \<open>History length\<close>

lemmas server_defs =
  handle_jsonrpc_def rpc_request_def respond_def respond_stream_def value_error_response_def
  error_response_def invalid_params_def reraise_def handle_cancel_task_def
  handle_get_push_notification_def

lemmas code_defs =
  PARSE_ERROR_def INVALID_REQUEST_def METHOD_NOT_FOUND_def INVALID_PARAMS_def
  INTERNAL_ERROR_def TASK_NOT_FOUND_def TASK_NOT_CANCELABLE_def
  PUSH_NOTIFICATION_NOT_SUPPORTED_def UNSUPPORTED_OPERATION_def CONTENT_TYPE_NOT_SUPPORTED_def

text \<open>
  C4 does not hold of the code: \<^verbatim>\<open>get_task\<close> never reads \<^verbatim>\<open>history_length\<close> (the
  source marks the filtering as a TODO), so every value of it gives what its absence
  gives. Task \<open>t1\<close> has three messages of history and is returned with all three under
  \<^verbatim>\<open>historyLength = 1\<close>.
\<close>

theorem get_task_history_not_truncated:
  "get_task m task_id history_length = get_task m task_id None \<and>
   (case create_task (init_manager (Some history_processor) True False demo_clock)
           demo_params [] of
      (Inl e, m') \<Rightarrow> None
    | (Inr t, m') \<Rightarrow>
        (case get_task m' ''t1'' (Some 1) of
           Inl e \<Rightarrow> None
         | Inr task \<Rightarrow> map_option length (t_history task))) = Some 3"
  by (simp add: get_task_def create_task_def run_actions_def create_task_finish_def
      history_processor_def demo_defs)

subsection \<open>Cancellation and the error codes of the server\<close>

lemma sublist_skip_prefix:
  "c \<notin> set a \<Longrightarrow> sublist (c # p) (a @ b) = sublist (c # p) b"
  by (induction a) (auto simp: sublist_Cons_right)

lemma not_found_text: "sublist ''Task not found'' (''Invalid params: Task not found: '' @ i)"
proof -
  have "''Invalid params: Task not found: '' @ i
          = ''Invalid params: '' @ ''Task not found'' @ ('': '' @ i)" by simp
  then show ?thesis by (metis sublist_appendI)
qed

text \<open>
  C3. \<^verbatim>\<open>cancel_task\<close> on an unknown id raises \<^verbatim>\<open>Task not found\<close>, which the server
  answers with code -32001; on a task in a final state it raises
  \<^verbatim>\<open>Task is already in a final state and cannot be canceled\<close>, which the server answers
  with code -32002, the manager unchanged; otherwise the stored task gets the status
  CANCELED with the agent message \<^verbatim>\<open>Task was canceled\<close>, and on a manager with streaming
  the final status event is put once on the queue of every subscriber of the task.
\<close>

theorem cancel_task_outcomes:
  assumes "as_TaskIdParams params = Inr task_id"
  shows "(tasks m task_id = None \<longrightarrow>
            cancel_task m task_id = Inl (ValueError (''Task not found: '' @ task_id)) \<and>
            handle_jsonrpc m (rpc_request ''tasks/cancel'' params request_id accept) during sched =
              (ErrorResponse request_id (- 32001)
                 (''Invalid params: Task not found: '' @ task_id), m)) \<and>
         (\<forall>task. tasks m task_id = Some task \<and> is_final_state (s_state (t_status task)) \<longrightarrow>
            cancel_task m task_id =
              Inl (ValueError ''Task is already in a final state and cannot be canceled'') \<and>
            handle_jsonrpc m (rpc_request ''tasks/cancel'' params request_id accept) during sched =
              (ErrorResponse request_id (- 32002)
                 ''Invalid params: Task is already in a final state and cannot be canceled'',
               m)) \<and>
         (\<forall>task. tasks m task_id = Some task \<and> \<not> is_final_state (s_state (t_status task)) \<longrightarrow>
            (\<exists>task' m'. cancel_task m task_id = Inr (task', m') \<and>
               tasks m' task_id = Some task' \<and>
               task' = task\<lparr>t_status := \<lparr>s_state = CANCELED,
                          s_message = Some \<lparr>m_role = ''agent'',
                            m_parts = [TextPart ''Task was canceled'']\<rparr>,
                          s_timestamp = clock m (ticks m)\<rparr>\<rparr> \<and>
               (\<forall>q. queues m' q = queues m q @
                  (if supports_streaming m
                   then (case task_streams m (t_id task) of
                           None \<Rightarrow> []
                         | Some qs \<Rightarrow>
                             replicate (count_list qs q)
                               (TaskStatusUpdateEvent (t_id task) (t_status task') True))
                   else []))))"
proof (intro conjI allI impI)
  assume "tasks m task_id = None"
  then show "cancel_task m task_id = Inl (ValueError (''Task not found: '' @ task_id))"
    by (simp add: cancel_task_def)
next
  assume n: "tasks m task_id = None"
  have c: "cancel_task m task_id = Inl (ValueError (''Task not found: '' @ task_id))"
    using n by (simp add: cancel_task_def)
  show "handle_jsonrpc m (rpc_request ''tasks/cancel'' params request_id accept) during sched =
              (ErrorResponse request_id (- 32001)
                 (''Invalid params: Task not found: '' @ task_id), m)"
    using assms not_found_text[of task_id]
    by (simp add: server_defs c TASK_NOT_FOUND_def)
next
  fix task assume "tasks m task_id = Some task \<and> is_final_state (s_state (t_status task))"
  then show "cancel_task m task_id =
              Inl (ValueError ''Task is already in a final state and cannot be canceled'')"
    by (simp add: cancel_task_final)
next
  fix task assume "tasks m task_id = Some task \<and> is_final_state (s_state (t_status task))"
  then have c: "cancel_task m task_id =
              Inl (ValueError ''Task is already in a final state and cannot be canceled'')"
    by (simp add: cancel_task_final)
  have 1: "\<not> sublist ''Task not found''
              ''Invalid params: Task is already in a final state and cannot be canceled''"
    by (simp add: sublist_Cons_right)
  have 2: "sublist ''Task is already in a final state''
              ''Invalid params: Task is already in a final state and cannot be canceled''"
    by (simp add: sublist_Cons_right)
  show "handle_jsonrpc m (rpc_request ''tasks/cancel'' params request_id accept) during sched =
              (ErrorResponse request_id (- 32002)
                 ''Invalid params: Task is already in a final state and cannot be canceled'',
               m)"
    using assms 1 2
    by (simp add: server_defs c TASK_NOT_CANCELABLE_def)
next
  fix task assume a: "tasks m task_id = Some task \<and> \<not> is_final_state (s_state (t_status task))"
  let ?st = "\<lparr>s_state = CANCELED,
                          s_message = Some \<lparr>m_role = ''agent'',
                            m_parts = [TextPart ''Task was canceled'']\<rparr>,
                          s_timestamp = clock m (ticks m)\<rparr>"
  let ?task' = "task\<lparr>t_status := ?st\<rparr>"
  let ?m' = "send_status_update
               (m\<lparr>ticks := Suc (ticks m), tasks := (tasks m)(task_id \<mapsto> ?task')\<rparr>) ?task'"
  have c: "cancel_task m task_id = Inr (?task', ?m')"
    using a by (simp add: cancel_task_def get_iso_timestamp_def Let_def)
  have q: "queues ?m' q = queues m q @
                  (if supports_streaming m
                   then (case task_streams m (t_id task) of
                           None \<Rightarrow> []
                         | Some qs \<Rightarrow>
                             replicate (count_list qs q)
                               (TaskStatusUpdateEvent (t_id task) (t_status ?task') True))
                   else [])" for q
    by (simp add: send_status_update_queues is_final_state_def split: option.splits)
  show "\<exists>task' m'. cancel_task m task_id = Inr (task', m') \<and>
               tasks m' task_id = Some task' \<and>
               task' = task\<lparr>t_status := ?st\<rparr> \<and>
               (\<forall>q. queues m' q = queues m q @
                  (if supports_streaming m
                   then (case task_streams m (t_id task) of
                           None \<Rightarrow> []
                         | Some qs \<Rightarrow>
                             replicate (count_list qs q)
                               (TaskStatusUpdateEvent (t_id task) (t_status task') True))
                   else []))"
    using c q by (intro exI[of _ ?task'] exI[of _ ?m']) simp
qed


theorem cancel_task_outcomes_witness:
  "as_TaskIdParams (id_params ''t1'') = Inr ''t1'' \<and>
   map_option (\<lambda>t. is_final_state (s_state (t_status t))) (tasks canceled_manager ''t1'')
     = Some True \<and>
   handle_jsonrpc canceled_manager
       (rpc_request ''tasks/cancel'' (id_params ''t1'') (IntId 7) None) [] []
     = (ErrorResponse (IntId 7) (- 32002)
          ''Invalid params: Task is already in a final state and cannot be canceled'',
        canceled_manager) \<and>
   tasks canceled_manager ''t2'' = None \<and>
   cancel_task canceled_manager ''t2'' = Inl (ValueError ''Task not found: t2'') \<and>
   map_option (\<lambda>t. is_final_state (s_state (t_status t))) (tasks streaming_manager ''t1'')
     = Some False \<and>
   (case cancel_task streaming_manager ''t1'' of
      Inl e \<Rightarrow> None
    | Inr (t, m') \<Rightarrow> Some (s_state (t_status t), s_message (t_status t)))
     = Some (CANCELED, Some \<lparr>m_role = ''agent'', m_parts = [TextPart ''Task was canceled'']\<rparr>)"
proof -
  have p: "as_TaskIdParams (id_params i) = Inr i" for i by (simp add: id_params_def)
  obtain t where t: "tasks canceled_manager ''t1'' = Some t"
    "is_final_state (s_state (t_status t))"
    by (simp add: canceled_manager_def demo_defs)
  obtain t' where t': "tasks streaming_manager ''t1'' = Some t'"
    "\<not> is_final_state (s_state (t_status t'))"
    by (simp add: streaming_manager_def demo_defs)
  have n: "tasks canceled_manager ''t2'' = None"
    by (simp add: canceled_manager_def demo_defs)
  from cancel_task_outcomes[OF p, of canceled_manager "''t1''" "IntId 7" None "[]" "[]"] t
  have 1: "handle_jsonrpc canceled_manager
       (rpc_request ''tasks/cancel'' (id_params ''t1'') (IntId 7) None) [] []
     = (ErrorResponse (IntId 7) (- 32002)
          ''Invalid params: Task is already in a final state and cannot be canceled'',
        canceled_manager)" by blast
  from cancel_task_outcomes[OF p, of canceled_manager "''t2''" "IntId 7" None "[]" "[]"] n
  have 2: "cancel_task canceled_manager ''t2'' = Inl (ValueError ''Task not found: t2'')"
    by simp
  from cancel_task_outcomes[OF p, of streaming_manager "''t1''" "IntId 7" None "[]" "[]"] t'
  obtain task' m' where 3: "cancel_task streaming_manager ''t1'' = Inr (task', m')"
    "task' = t'\<lparr>t_status := \<lparr>s_state = CANCELED,
                          s_message = Some \<lparr>m_role = ''agent'',
                            m_parts = [TextPart ''Task was canceled'']\<rparr>,
                          s_timestamp = clock streaming_manager (ticks streaming_manager)\<rparr>\<rparr>"
    by blast
  show ?thesis using p t t' n 1 2 3 by simp
qed

text \<open>
  C7, as the code has it. With push notifications supported, the task known and no
  configuration stored, \<^verbatim>\<open>get_push_notification\<close> raises
  \<^verbatim>\<open>No push notification configuration for task: <id>\<close>. None of the phrases the server
  looks for is in that text unless the id itself holds one, and the server answers with
  the code of invalid params, -32602.
\<close>

theorem get_push_notification_unset:
  assumes "supports_push_notifications m" and "tasks m task_id = Some task"
    and "push_notifications m task_id = None"
    and "as_TaskIdParams params = Inr task_id"
    and "\<not> sublist ''Task not found'' task_id"
    and "\<not> sublist ''Task is already in a final state'' task_id"
    and "\<not> sublist ''Push notifications are not supported'' task_id"
    and "\<not> sublist ''Streaming is not supported'' task_id"
  shows "get_push_notification m task_id =
           Inl (ValueError (''No push notification configuration for task: '' @ task_id)) \<and>
         handle_jsonrpc m
             (rpc_request ''tasks/pushNotification/get'' params request_id accept) during sched =
           (ErrorResponse request_id (- 32602)
              (''Invalid params: No push notification configuration for task: '' @ task_id),
            m)"
proof -
  let ?pre = "''Invalid params: No push notification configuration for task: ''"
  have g: "get_push_notification m task_id =
           Inl (ValueError (''No push notification configuration for task: '' @ task_id))"
    using assms(1-3) by (simp add: get_push_notification_def)
  have msg: "''Invalid params: '' @ ''No push notification configuration for task: '' @ task_id
           = ?pre @ task_id" by simp
  have s: "sublist ''Task not found'' (?pre @ task_id) = sublist ''Task not found'' task_id"
    "sublist ''Task is already in a final state'' (?pre @ task_id)
       = sublist ''Task is already in a final state'' task_id"
    "sublist ''Push notifications are not supported'' (?pre @ task_id)
       = sublist ''Push notifications are not supported'' task_id"
    "sublist ''Streaming is not supported'' (?pre @ task_id)
       = sublist ''Streaming is not supported'' task_id"
    by (rule sublist_skip_prefix, simp)+
  have v: "value_error_response request_id (?pre @ task_id)
             = ErrorResponse request_id (- 32602) (?pre @ task_id)"
    unfolding value_error_response_def s using assms(5-8)
    by (simp add: error_response_def INVALID_PARAMS_def)
  show ?thesis
    using assms(4) v
    by (simp add: g handle_jsonrpc_def rpc_request_def respond_def invalid_params_def
        reraise_def handle_get_push_notification_def)
qed

theorem get_push_notification_unset_witness:
  "supports_push_notifications push_manager \<and> tasks push_manager ''t1'' \<noteq> None \<and>
   push_notifications push_manager ''t1'' = None \<and>
   as_TaskIdParams (id_params ''t1'') = Inr ''t1'' \<and>
   \<not> sublist ''Task not found'' ''t1'' \<and>
   \<not> sublist ''Task is already in a final state'' ''t1'' \<and>
   \<not> sublist ''Push notifications are not supported'' ''t1'' \<and>
   \<not> sublist ''Streaming is not supported'' ''t1'' \<and>
   get_push_notification push_manager ''t1'' =
     Inl (ValueError ''No push notification configuration for task: t1'') \<and>
   handle_jsonrpc push_manager
       (rpc_request ''tasks/pushNotification/get'' (id_params ''t1'') NoId None) [] []
     = (ErrorResponse NoId (- 32602)
          ''Invalid params: No push notification configuration for task: t1'', push_manager)"
proof -
  obtain t where t: "tasks push_manager ''t1'' = Some t"
    by (simp add: push_manager_def demo_defs)
  have h: "supports_push_notifications push_manager" "push_notifications push_manager ''t1'' = None"
    "as_TaskIdParams (id_params ''t1'') = Inr ''t1''"
    "\<not> sublist ''Task not found'' ''t1''"
    "\<not> sublist ''Task is already in a final state'' ''t1''"
    "\<not> sublist ''Push notifications are not supported'' ''t1''"
    "\<not> sublist ''Streaming is not supported'' ''t1''"
    by (simp_all add: push_manager_def demo_defs id_params_def sublist_Cons_right)
  from get_push_notification_unset[OF h(1) t h(2-7), of NoId None "[]" "[]"] h t
  show ?thesis by simp
qed

text \<open>
  C7 as stated fails: for task \<open>t1\<close> the answer carries -32602, not the code -32001
  of a task that is not found.
\<close>

theorem get_push_notification_unset_counterexample:
  "supports_push_notifications push_manager \<and>
   map_option t_id (tasks push_manager ''t1'') = Some ''t1'' \<and>
   push_notifications push_manager ''t1'' = None \<and>
   TASK_NOT_FOUND = - 32001 \<and>
   fst (handle_jsonrpc push_manager
          (rpc_request ''tasks/pushNotification/get'' (id_params ''t1'') (IntId 7) None) [] [])
     = ErrorResponse (IntId 7) (- 32602)
         ''Invalid params: No push notification configuration for task: t1''"
  by (simp add: push_manager_def demo_defs id_params_def server_defs
      get_push_notification_def code_defs sublist_Cons_right)

subsection \<open>Streaming methods and the Accept header\<close>

text \<open>
  C8. A request for \<^verbatim>\<open>tasks/sendSubscribe\<close> or \<^verbatim>\<open>tasks/resubscribe\<close> whose Accept
  header is absent or anything but \<^verbatim>\<open>text/event-stream\<close> is answered with code -32005
  before any handler runs: the manager is unchanged and the answer does not depend on it.
\<close>

theorem streaming_requires_accept:
  assumes "method = ''tasks/sendSubscribe'' \<or> method = ''tasks/resubscribe''"
    and "accept \<noteq> Some ''text/event-stream''"
  shows "handle_jsonrpc m (rpc_request method params request_id accept) during sched =
           (ErrorResponse request_id (- 32005)
              ''Streaming requests require Accept: text/event-stream header'', m)"
  using assms
  by (auto simp: handle_jsonrpc_def rpc_request_def error_response_def
      CONTENT_TYPE_NOT_SUPPORTED_def)

theorem streaming_requires_accept_witness:
  "Some ''application/json'' \<noteq> Some ''text/event-stream'' \<and>
   handle_jsonrpc streaming_manager
       (rpc_request ''tasks/resubscribe'' (id_params ''t1'') (IntId 7)
          (Some ''application/json'')) [] []
     = (ErrorResponse (IntId 7) (- 32005)
          ''Streaming requests require Accept: text/event-stream header'', streaming_manager)"
  using streaming_requires_accept[of "''tasks/resubscribe''" "Some ''application/json''"
      streaming_manager "id_params ''t1''" "IntId 7" "[]" "[]"]
  by simp

subsection \<open>The store of the parts lists\<close>

text \<open>
  The store and the tasks say the same in a new manager, and every operation keeps it
  so: what an event in a queue shows of its artifact is what the stored artifact has,
  as long as that artifact is the one stored.
\<close>

lemma merge_artifact_index_of:
  "merge_artifact arts u =
     (case index_of arts (a_index u) of
        None \<Rightarrow> (arts, False)
      | Some i \<Rightarrow> (arts[i := merged_artifact (arts ! i) u], True))"
  by (induction arts) (auto simp: merged_artifact_def split: option.splits)

lemma index_of_less: "index_of arts k = Some i \<Longrightarrow> i < length arts"
  by (induction arts arbitrary: i) (auto split: if_splits)

lemma store_ok_frame:
  assumes "store_ok m"
    and "\<And>i. stored_artifacts m' i = stored_artifacts m i"
    and "heap m' = heap m" "next_address m' = next_address m"
    and "artifact_refs m' = artifact_refs m"
  shows "store_ok m'"
  using assms by (simp add: store_ok_def)

lemma store_ok_init: "store_ok (init_manager processor streaming push clk)"
  by (simp add: store_ok_def init_manager_def stored_artifacts_def)

lemma send_status_update_store_ok: "store_ok m \<Longrightarrow> store_ok (send_status_update m t)"
  by (rule store_ok_frame) (simp_all add: stored_artifacts_def)

lemma store_ok_reset:
  assumes "store_ok m" "stored_artifacts m' i = []" "artifact_refs m' = (artifact_refs m)(i := [])"
    and "\<And>j. j \<noteq> i \<Longrightarrow> stored_artifacts m' j = stored_artifacts m j"
    and "heap m' = heap m" "next_address m' = next_address m"
  shows "store_ok m'"
  using assms unfolding store_ok_def by (auto split: if_splits)

lemma create_task_begin_store_ok:
  assumes "store_ok m"
  shows "store_ok (create_task_begin m p)"
proof -
  have "store_ok m'" if "stored_artifacts m' (sp_id p) = []"
    "artifact_refs m' = (artifact_refs m)(sp_id p := [])"
    "\<And>j. j \<noteq> sp_id p \<Longrightarrow> stored_artifacts m' j = stored_artifacts m j"
    "heap m' = heap m" "next_address m' = next_address m" for m'
    using store_ok_reset[OF assms that] .
  note r = this
  show ?thesis
    unfolding create_task_begin_def get_iso_timestamp_def
    by (auto simp: Let_def stored_artifacts_def split: option.splits intro!: r)
qed

lemma store_ok_replace:
  assumes "store_ok m" "stored_artifacts m' i = arts"
    and "\<And>j. j \<noteq> i \<Longrightarrow> stored_artifacts m' j = stored_artifacts m j"
    and "artifact_refs m' =
           (artifact_refs m)(i := [next_address m ..< next_address m + length arts])"
    and "next_address m' = next_address m + length arts"
    and "\<And>y. heap m' y =
           (if next_address m \<le> y \<and> y < next_address m + length arts
            then a_parts (arts ! (y - next_address m)) else heap m y)"
  shows "store_ok m'"
proof -
  let ?x = "next_address m"
  note st = assms(2,3) and nx = assms(5) and hp = assms(6)
  have refs: "artifact_refs m' j = (if j = i then [?x ..< ?x + length arts] else artifact_refs m j)"
    for j by (simp add: assms(4))
  have old: "y < ?x" if "y \<in> set (artifact_refs m j)" for y j
    using assms(1) that by (auto simp: store_ok_def)
  show ?thesis
    unfolding store_ok_def
  proof (intro allI conjI ballI impI)
    fix j
    show "map (heap m') (artifact_refs m' j) = map a_parts (stored_artifacts m' j)"
    proof (cases "j = i")
      case True
      have "map (heap m') [?x ..< ?x + length arts] = map a_parts arts"
        by (rule nth_equalityI) (simp_all add: hp)
      with True show ?thesis by (simp add: st refs)
    next
      case False
      have "heap m' y = heap m y" if "y \<in> set (artifact_refs m j)" for y
        using old[OF that] by (simp add: hp)
      then have "map (heap m') (artifact_refs m j) = map (heap m) (artifact_refs m j)"
        by simp
      with False assms(1) show ?thesis by (simp add: st refs store_ok_def)
    qed
    show "distinct (artifact_refs m' j)"
      using assms(1) by (simp add: refs store_ok_def)
    fix y assume y: "y \<in> set (artifact_refs m' j)"
    show "y < next_address m'"
      using y old[of y j] by (auto simp: refs nx split: if_splits)
    fix other assume o: "other \<noteq> j"
    show "y \<notin> set (artifact_refs m' other)"
    proof (cases "j = i")
      case True
      with y o old[of y other] show ?thesis by (auto simp: refs)
    next
      case False
      with y have yj: "y \<in> set (artifact_refs m j)" by (simp add: refs)
      show ?thesis
      proof (cases "other = i")
        case True
        with old[OF yj] show ?thesis by (simp add: refs)
      next
        case False
        with yj o assms(1) show ?thesis by (auto simp: refs store_ok_def)
      qed
    qed
  qed
qed

lemma create_task_finish_store_ok:
  assumes "store_ok m" "create_task_finish m p out = Inr (t, m')"
  shows "store_ok m'"
proof (cases out)
  case (Returned x)
  let ?arts = "case t_artifacts x of None \<Rightarrow> [] | Some xs \<Rightarrow> xs"
  let ?m1 = "store_artifacts (m\<lparr>tasks := (tasks m)(sp_id p \<mapsto> x)\<rparr>) (sp_id p) ?arts"
  have "store_ok ?m1"
    using assms(1)
    by (rule store_ok_replace[where i = "sp_id p" and arts = ?arts])
       (simp_all add: stored_artifacts_def store_artifacts_def Let_def)
  then have "store_ok (send_status_update ?m1 x)" by (rule send_status_update_store_ok)
  with assms(2) Returned show ?thesis
    by (auto simp: create_task_finish_def Let_def split: option.splits)
next
  case (Raised e)
  have f: "store_ok mm" if "\<And>i. stored_artifacts mm i = stored_artifacts m i"
    "heap mm = heap m" "next_address mm = next_address m" "artifact_refs mm = artifact_refs m"
    for mm using store_ok_frame[OF assms(1) that] .
  show ?thesis
    using assms(2) Raised
    by (auto simp: create_task_finish_def get_iso_timestamp_def Let_def stored_artifacts_def
        split: option.splits intro!: send_status_update_store_ok f)
next
  case (Interrupted e)
  with assms show ?thesis by (simp add: create_task_finish_def)
qed

lemma cancel_task_store_ok:
  assumes "store_ok m" "cancel_task m i = Inr (t, m')"
  shows "store_ok m'"
proof -
  have f: "store_ok mm" if "\<And>i. stored_artifacts mm i = stored_artifacts m i"
    "heap mm = heap m" "next_address mm = next_address m" "artifact_refs mm = artifact_refs m"
    for mm using store_ok_frame[OF assms(1) that] .
  show ?thesis
    using assms(2)
    by (auto simp: cancel_task_def get_iso_timestamp_def Let_def stored_artifacts_def
        split: option.splits if_splits intro!: send_status_update_store_ok f)
qed

lemma put_all_store_ok: "store_ok m \<Longrightarrow> store_ok (put_all m qs ev r)"
  by (rule store_ok_frame) (simp_all add: stored_artifacts_def)

lemma send_artifact_update_store_ok:
  assumes "store_ok m"
  shows "store_ok (send_artifact_update m i a f)"
proof (cases "supports_streaming m")
  case False
  with assms show ?thesis by (simp add: send_artifact_update_def)
next
  case True
  show ?thesis
  proof (cases "task_streams m i")
    case None
    with True assms show ?thesis by (simp add: send_artifact_update_def)
  next
    case (Some qs)
    show ?thesis
    proof (cases "tasks m i")
      case None
      with True Some assms show ?thesis by (simp add: send_artifact_update_def)
    next
      case (Some task)
      let ?x = "next_address m"
      let ?arts = "case t_artifacts task of None \<Rightarrow> [] | Some xs \<Rightarrow> xs"
      let ?refs = "artifact_refs m i"
      have sa: "stored_artifacts m i = ?arts" using Some by (simp add: stored_artifacts_def)
      from assms have eq: "map (heap m) ?refs = map a_parts ?arts"
        and di: "distinct ?refs"
        and old: "\<And>y j. y \<in> set (artifact_refs m j) \<Longrightarrow> y < ?x"
        and dj: "\<And>y j k. y \<in> set (artifact_refs m j) \<Longrightarrow> k \<noteq> j \<Longrightarrow> y \<notin> set (artifact_refs m k)"
        and oth: "\<And>j. map (heap m) (artifact_refs m j) = map a_parts (stored_artifacts m j)"
        and dis: "\<And>j. distinct (artifact_refs m j)"
        unfolding store_ok_def sa[symmetric] by blast+
      from eq have len: "length ?refs = length ?arts" by (rule map_eq_imp_length_eq)
      define arts' refs' heap' where
        "arts' = (case index_of ?arts (a_index a) of
                    None \<Rightarrow> ?arts @ [a]
                  | Some k \<Rightarrow> ?arts[k := merged_artifact (?arts ! k) a])"
        and "refs' = (case index_of ?arts (a_index a) of
                    None \<Rightarrow> ?refs @ [?x]
                  | Some k \<Rightarrow> if a_append a = Some True then ?refs else ?refs[k := ?x])"
        and "heap' = (case index_of ?arts (a_index a) of
                    None \<Rightarrow> (heap m)(?x := a_parts a)
                  | Some k \<Rightarrow>
                      if a_append a = Some True
                      then (heap m)(?refs ! k := heap m (?refs ! k) @ a_parts a, ?x := a_parts a)
                      else (heap m)(?x := a_parts a))"
      define m1 where "m1 = m\<lparr>tasks := (tasks m)(i \<mapsto> task\<lparr>t_artifacts := Some arts'\<rparr>),
          heap := heap', next_address := Suc ?x,
          artifact_refs := (artifact_refs m)(i := refs')\<rparr>"
      have m1: "send_artifact_update m i a f =
            put_all m1 qs (TaskArtifactUpdateEvent i a f) (Some ?x)"
        using True \<open>task_streams m i = Some qs\<close> Some
        by (simp add: send_artifact_update_def Let_def m1_def arts'_def refs'_def heap'_def
            merge_artifact_index_of split: option.splits)
      have key: "map heap' refs' = map a_parts arts' \<and> distinct refs' \<and>
                 set refs' \<subseteq> insert ?x (set ?refs) \<and>
                 (\<forall>y. y < ?x \<and> y \<notin> set ?refs \<longrightarrow> heap' y = heap m y)"
      proof (cases "index_of ?arts (a_index a)")
        case None
        have "map ((heap m)(?x := a_parts a)) ?refs = map (heap m) ?refs"
          using old[of _ i] by (auto simp: map_eq_conv)
        with None eq old[of ?x i] di show ?thesis
          by (auto simp: arts'_def refs'_def heap'_def)
      next
        case (Some k)
        from index_of_less[OF Some] len have k: "k < length ?arts" "k < length ?refs" by simp_all
        then have rk: "?refs ! k \<in> set ?refs" by simp
        from old[OF rk] have nx: "?refs ! k \<noteq> ?x" by simp
        from eq k have hk: "heap m (?refs ! k) = a_parts (?arts ! k)"
          by (metis nth_map)
        show ?thesis
        proof (cases "a_append a = Some True")
          case True
          have "map heap' ?refs = (map (heap m) ?refs)[k := heap m (?refs ! k) @ a_parts a]"
          proof (rule nth_equalityI)
            show "length (map heap' ?refs) =
                  length ((map (heap m) ?refs)[k := heap m (?refs ! k) @ a_parts a])" by simp
            fix j assume "j < length (map heap' ?refs)"
            then have j: "j < length ?refs" by simp
            then have "?refs ! j \<in> set ?refs" by simp
            from old[OF this] have jx: "?refs ! j \<noteq> ?x" by simp
            have "?refs ! j = ?refs ! k \<longleftrightarrow> j = k"
              using di j k(2) by (simp add: nth_eq_iff_index_eq)
            with j jx nx show "map heap' ?refs ! j =
                (map (heap m) ?refs)[k := heap m (?refs ! k) @ a_parts a] ! j"
              using Some True by (auto simp: heap'_def nth_list_update)
          qed
          also have "\<dots> = map a_parts (?arts[k := merged_artifact (?arts ! k) a])"
            using True hk by (simp add: eq map_update merged_artifact_def)
          finally have "map heap' ?refs = map a_parts (?arts[k := merged_artifact (?arts ! k) a])" .
          moreover have "heap' y = heap m y" if "y < ?x" "y \<notin> set ?refs" for y
            using that rk Some True by (auto simp: heap'_def)
          ultimately show ?thesis
            using Some True di by (auto simp: arts'_def refs'_def)
        next
          case False
          have "map heap' (?refs[k := ?x]) = (map (heap m) ?refs)[k := a_parts a]"
          proof (rule nth_equalityI)
            show "length (map heap' (?refs[k := ?x])) =
                  length ((map (heap m) ?refs)[k := a_parts a])" by simp
            fix j assume "j < length (map heap' (?refs[k := ?x]))"
            then have j: "j < length ?refs" by simp
            then have "?refs ! j \<in> set ?refs" by simp
            from old[OF this] have jx: "?refs ! j \<noteq> ?x" by simp
            show "map heap' (?refs[k := ?x]) ! j =
                (map (heap m) ?refs)[k := a_parts a] ! j"
            proof (cases "j = k")
              case True
              with j Some False show ?thesis by (simp add: heap'_def)
            next
              case ne: False
              with j jx Some False show ?thesis by (simp add: heap'_def)
            qed
          qed
          also have "\<dots> = map a_parts (?arts[k := merged_artifact (?arts ! k) a])"
            using False by (simp add: eq map_update merged_artifact_def)
          finally have "map heap' (?refs[k := ?x]) =
              map a_parts (?arts[k := merged_artifact (?arts ! k) a])" .
          moreover have "distinct (?refs[k := ?x])"
            using di old[of ?x i] by (intro distinct_list_update) auto
          moreover have "set (?refs[k := ?x]) \<subseteq> insert ?x (set ?refs)"
            by (rule set_update_subset_insert)
          ultimately show ?thesis
            using Some False by (auto simp: arts'_def refs'_def heap'_def)
        qed
      qed
      have hx: "heap' y = heap m y" if "y \<in> set (artifact_refs m j)" "j \<noteq> i" for y j
        using key old[OF that(1)] dj[OF that(1), of i] that(2) by auto
      have "store_ok m1"
        unfolding store_ok_def
      proof (intro allI conjI ballI impI)
        fix j
        show "map (heap m1) (artifact_refs m1 j) = map a_parts (stored_artifacts m1 j)"
        proof (cases "j = i")
          case True
          with key show ?thesis by (simp add: m1_def stored_artifacts_def)
        next
          case False
          have "map heap' (artifact_refs m j) = map (heap m) (artifact_refs m j)"
            using hx[OF _ False] by (auto simp: map_eq_conv)
          with False oth[of j] show ?thesis by (simp add: m1_def stored_artifacts_def)
        qed
        show "distinct (artifact_refs m1 j)"
          using key dis[of j] by (simp add: m1_def)
        fix y assume y: "y \<in> set (artifact_refs m1 j)"
        show "y < next_address m1"
        proof (cases "j = i")
          case True
          with y key have "y = ?x \<or> y \<in> set ?refs" by (auto simp: m1_def)
          with old[of y i] show ?thesis by (auto simp: m1_def)
        next
          case False
          with y old[of y j] show ?thesis by (auto simp: m1_def)
        qed
        fix other assume o: "other \<noteq> j"
        show "y \<notin> set (artifact_refs m1 other)"
        proof (cases "j = i")
          case True
          with y key have c: "y = ?x \<or> y \<in> set ?refs" by (auto simp: m1_def)
          from True o have "artifact_refs m1 other = artifact_refs m other" by (simp add: m1_def)
          with c old[of ?x other] dj[of y i other] o True show ?thesis by auto
        next
          case False
          with y have yj: "y \<in> set (artifact_refs m j)" by (simp add: m1_def)
          show ?thesis
          proof (cases "other = i")
            case True
            have "y \<noteq> ?x" using old[OF yj] by simp
            moreover have "y \<notin> set ?refs" using dj[OF yj, of i] False by simp
            ultimately show ?thesis using True key by (auto simp: m1_def)
          next
            case False
            with dj[OF yj o] show ?thesis by (simp add: m1_def)
          qed
        qed
      qed
      then show ?thesis unfolding m1 by (rule put_all_store_ok)
    qed
  qed
qed

lemma subscribe_store_ok:
  assumes "store_ok m" "subscribe m i = Inr (q, m')"
  shows "store_ok m'"
  using assms
  by (auto simp: subscribe_def Let_def store_ok_def stored_artifacts_def split: if_splits)

lemma set_push_store_ok:
  assumes "store_ok m" "set_push_notification m i c = Inr (r, m')"
  shows "store_ok m'"
  using assms
  by (auto simp: set_push_notification_def store_ok_def stored_artifacts_def split: if_splits)

lemma apply_action_store_ok:
  assumes "store_ok m"
  shows "store_ok (apply_action m a)"
proof (cases a)
  case (Begin p)
  with assms show ?thesis by (simp add: create_task_begin_store_ok)
next
  case (Finish p out)
  with assms show ?thesis
    by (auto split: sum.splits intro: create_task_finish_store_ok)
next
  case (Cancel i)
  with assms show ?thesis by (auto split: sum.splits intro: cancel_task_store_ok)
next
  case (ArtifactUpdate i art f)
  with assms show ?thesis by (simp add: send_artifact_update_store_ok)
next
  case (Subscribe i)
  with assms show ?thesis by (auto split: sum.splits intro: subscribe_store_ok)
next
  case (SetPush i c)
  with assms show ?thesis by (auto split: sum.splits intro: set_push_store_ok)
qed

lemma run_actions_store_ok: "store_ok m \<Longrightarrow> store_ok (run_actions m acts)"
  unfolding run_actions_def
  by (induction acts arbitrary: m) (simp_all add: apply_action_store_ok)

lemma reachable_store_ok:
  "store_ok (run_actions (init_manager processor streaming push clk) acts)"
  using store_ok_init by (rule run_actions_store_ok)

subsection \<open>The event stream of a subscription\<close>

lemma apply_action_registered:
  assumes "registered m tid q" "\<not> begins a tid"
  shows "registered (apply_action m a) tid q"
proof (cases a)
  case (Begin p)
  with assms show ?thesis
    by (simp add: registered_def create_task_begin_streams)
next
  case (Finish p out)
  with assms show ?thesis
    by (auto simp: registered_def split: sum.splits dest: create_task_finish_flags(4))
next
  case (Cancel i)
  with assms show ?thesis
    by (auto simp: registered_def split: sum.splits dest: cancel_task_flags(4))
next
  case (ArtifactUpdate i art f)
  with assms show ?thesis by (simp add: registered_def)
next
  case (Subscribe i)
  with assms show ?thesis
    by (auto simp: registered_def split: sum.splits option.splits if_splits
        dest!: subscribe_streams)
next
  case (SetPush i c)
  with assms show ?thesis
    by (auto simp: registered_def split: sum.splits dest: set_push_flags(4))
qed

lemma run_actions_registered:
  "registered m tid q \<Longrightarrow> no_begin acts tid \<Longrightarrow> registered (run_actions m acts) tid q"
  unfolding run_actions_def no_begin_def
  by (induction acts arbitrary: m) (simp_all add: apply_action_registered)

lemma end_stream_registered:
  assumes "registered m tid q"
  shows "\<exists>m'. end_stream m tid q ys = (ys, None, m')"
  using assms by (auto simp: end_stream_def unsubscribe_def registered_def split: option.splits)

lemma create_task_begin_queues [simp]:
  "queues (create_task_begin m p) = queues m"
  "next_queue (create_task_begin m p) = next_queue m"
  by (auto simp: create_task_begin_def get_iso_timestamp_def Let_def send_status_update_def
      put_all_def split: option.splits)

lemma create_task_finish_queues:
  assumes "create_task_finish m p out = Inr (t, m')"
  shows "\<exists>es. queues m' q = queues m q @ es" "next_queue m' = next_queue m"
  using assms
  by (auto simp: create_task_finish_def get_iso_timestamp_def Let_def send_status_update_queues
      split: option.splits Outcome.splits)

lemma cancel_task_queues:
  assumes "cancel_task m i = Inr (t, m')"
  shows "\<exists>es. queues m' q = queues m q @ es" "next_queue m' = next_queue m"
  using assms
  by (auto simp: cancel_task_def get_iso_timestamp_def Let_def send_status_update_queues
      split: option.splits if_splits)

lemma send_artifact_update_queues:
  "\<exists>es. queues (send_artifact_update m i a f) q = queues m q @ es"
  "next_queue (send_artifact_update m i a f) = next_queue m"
  by (auto simp: send_artifact_update_def Let_def put_all_queues split: option.splits prod.splits)

lemma subscribe_queues:
  assumes "subscribe m i = Inr (q', m')"
  shows "q < next_queue m \<Longrightarrow> queues m' q = queues m q" "next_queue m' = Suc (next_queue m)"
  using assms by (auto simp: subscribe_def Let_def split: if_splits)

lemma set_push_queues:
  assumes "set_push_notification m i c = Inr (r, m')"
  shows "queues m' = queues m" "next_queue m' = next_queue m"
  using assms by (auto simp: set_push_notification_def split: if_splits)

lemma apply_action_queue_grows:
  assumes "q < next_queue m"
  shows "prefix (queues m q) (queues (apply_action m a) q) \<and> q < next_queue (apply_action m a)"
proof (cases a)
  case (Begin p)
  with assms show ?thesis by simp
next
  case (Finish p out)
  show ?thesis
  proof (cases "create_task_finish m p out")
    case (Inl e)
    with Finish assms show ?thesis by simp
  next
    case (Inr r)
    obtain t m' where r: "r = (t, m')" by (cases r)
    from create_task_finish_queues(1)[OF Inr[unfolded r], of q]
      create_task_finish_queues(2)[OF Inr[unfolded r]] Finish Inr r assms
    show ?thesis by (auto simp: prefix_def)
  qed
next
  case (Cancel i)
  show ?thesis
  proof (cases "cancel_task m i")
    case (Inl e)
    with Cancel assms show ?thesis by simp
  next
    case (Inr r)
    obtain t m' where r: "r = (t, m')" by (cases r)
    from cancel_task_queues(1)[OF Inr[unfolded r], of q]
      cancel_task_queues(2)[OF Inr[unfolded r]] Cancel Inr r assms
    show ?thesis by (auto simp: prefix_def)
  qed
next
  case (ArtifactUpdate i art f)
  with assms send_artifact_update_queues(1)[of m i art f q]
    send_artifact_update_queues(2)[of m i art f] show ?thesis
    by (auto simp: prefix_def)
next
  case (Subscribe i)
  show ?thesis
  proof (cases "subscribe m i")
    case (Inl e)
    with Subscribe assms show ?thesis by simp
  next
    case (Inr r)
    obtain q' m' where r: "r = (q', m')" by (cases r)
    from subscribe_queues(1)[OF Inr[unfolded r], of q]
      subscribe_queues(2)[OF Inr[unfolded r]] Subscribe Inr r assms
    show ?thesis by simp
  qed
next
  case (SetPush i c)
  show ?thesis
  proof (cases "set_push_notification m i c")
    case (Inl e)
    with SetPush assms show ?thesis by simp
  next
    case (Inr r)
    obtain x m' where r: "r = (x, m')" by (cases r)
    from set_push_queues[OF Inr[unfolded r]] SetPush Inr r assms
    show ?thesis by simp
  qed
qed

lemma run_actions_append: "run_actions m (s1 @ s2) = run_actions (run_actions m s1) s2"
  by (simp add: run_actions_def)

lemma run_actions_queue_grows:
  "q < next_queue m \<Longrightarrow>
   prefix (queues m q) (queues (run_actions m acts) q) \<and> q < next_queue (run_actions m acts)"
proof (induction acts arbitrary: m)
  case Nil
  then show ?case by (simp add: run_actions_def)
next
  case (Cons a acts)
  from apply_action_queue_grows[OF Cons.prems, of a]
  have 1: "prefix (queues m q) (queues (apply_action m a) q)" "q < next_queue (apply_action m a)"
    by simp_all
  from Cons.IH[OF 1(2)] 1(1) show ?case
    by (auto simp: run_actions_def intro: prefix_order.trans)
qed

lemma until_final_simps [simp]:
  "until_final [] = []"
  "until_final (e # es) = (if final e then [e] else e # until_final es)"
  by (simp_all add: until_final_def)

lemma updates_until_final_eq: "updates_until_final es = until_final es"
  by (induction es) simp_all

lemma carries_final: "carries y p \<Longrightarrow> final y = final p"
  by (cases y; cases p) (auto simp: carries_def)

lemma until_final_carries:
  "list_all2 carries ys ps \<Longrightarrow> list_all2 carries (until_final ys) (until_final ps)"
  by (induction rule: list_all2_induct) (auto dest: carries_final)

lemma yielded_carries:
  assumes "entry_ok ex m (queues m q ! i) (queue_refs m q i)"
  shows "carries (yielded m q i) (queues m q ! i)"
  using assms
  by (cases "queues m q ! i"; cases "queue_refs m q i")
     (auto simp: yielded_def carries_def entry_ok_def)

lemma yielded_exact:
  assumes "entry_ok True m (queues m q ! i) (queue_refs m q i)"
  shows "yielded m q i = queues m q ! i"
  using assms
  by (cases "queues m q ! i"; cases "queue_refs m q i")
     (auto simp: yielded_def entry_ok_def)

lemma entry_ok_mono:
  assumes "entry_ok ex m ev r" "next_address m \<le> next_address m'"
    and "\<And>x. x < next_address m \<Longrightarrow> prefix (heap m x) (heap m' x)"
    and "\<And>x. ex \<Longrightarrow> x < next_address m \<Longrightarrow> heap m' x = heap m x"
  shows "entry_ok ex m' ev r"
  unfolding entry_ok_def
proof (intro allI impI conjI)
  fix x assume r: "r = Some x"
  with assms(1) have x: "x < next_address m" by (simp add: entry_ok_def)
  with assms(2) show "x < next_address m'" by simp
  fix t a f assume ev: "ev = TaskArtifactUpdateEvent t a f"
  with r assms(1) have p: "prefix (a_parts a) (heap m x)" by (simp add: entry_ok_def)
  then show "prefix (a_parts a) (heap m' x)"
    using assms(3)[OF x] by (meson prefix_order.trans)
  assume ex
  with r ev assms(1) have "heap m x = a_parts a" by (simp add: entry_ok_def)
  with assms(4)[OF \<open>ex\<close> x] show "heap m' x = a_parts a" by simp
qed

lemma put_all_sound:
  assumes "sound ex m q" "entry_ok ex m ev r"
  shows "sound ex (put_all m qs ev r) q"
  unfolding sound_def
proof (intro allI impI)
  fix i assume i: "i < length (queues (put_all m qs ev r) q)"
  have e: "entry_ok ex (put_all m qs ev r) ev' r' = entry_ok ex m ev' r'" for ev' r'
    by (simp add: entry_ok_def)
  show "entry_ok ex (put_all m qs ev r) (queues (put_all m qs ev r) q ! i)
          (queue_refs (put_all m qs ev r) q i)"
  proof (cases "i < length (queues m q)")
    case True
    with assms(1) show ?thesis
      by (simp add: e put_all_queues put_all_refs nth_append sound_def)
  next
    case False
    with i assms(2) show ?thesis
      by (simp add: e put_all_queues put_all_refs nth_append)
  qed
qed

lemma sound_fields:
  assumes "queues m' q = queues m q" "queue_refs m' q = queue_refs m q"
    "heap m' = heap m" "next_address m' = next_address m"
  shows "sound ex m' q = sound ex m q"
  using assms by (simp add: sound_def entry_ok_def)

lemma send_status_update_sound: "sound ex m q \<Longrightarrow> sound ex (send_status_update m t) q"
  by (auto simp: send_status_update_def entry_ok_def split: option.splits intro: put_all_sound)

lemma store_artifacts_sound: "sound ex m q \<Longrightarrow> sound ex (store_artifacts m i arts) q"
  unfolding sound_def
proof (intro allI impI)
  fix j assume a: "\<forall>i<length (queues m q). entry_ok ex m (queues m q ! i) (queue_refs m q i)"
    and j: "j < length (queues (store_artifacts m i arts) q)"
  then have "entry_ok ex m (queues m q ! j) (queue_refs m q j)" by simp
  then have "entry_ok ex (store_artifacts m i arts) (queues m q ! j) (queue_refs m q j)"
    by (rule entry_ok_mono) (simp_all add: store_artifacts_def Let_def)
  then show "entry_ok ex (store_artifacts m i arts) (queues (store_artifacts m i arts) q ! j)
             (queue_refs (store_artifacts m i arts) q j)" by simp
qed

lemma create_task_begin_sound: "sound ex m q \<Longrightarrow> sound ex (create_task_begin m p) q"
proof -
  assume s: "sound ex m q"
  have "sound ex m' q" if "queues m' q = queues m q" "queue_refs m' q = queue_refs m q"
    "heap m' = heap m" "next_address m' = next_address m" for m'
    using sound_fields[OF that] s by simp
  note f = this
  show ?thesis
    unfolding create_task_begin_def get_iso_timestamp_def
    by (auto simp: Let_def split: option.splits intro!: send_status_update_sound f)
qed

lemma create_task_finish_sound:
  assumes "sound ex m q" "create_task_finish m p out = Inr (t, m')"
  shows "sound ex m' q"
proof (cases out)
  case (Returned x)
  have "sound ex (m\<lparr>tasks := (tasks m)(sp_id p \<mapsto> x)\<rparr>) q"
    using assms(1) by (simp add: sound_def entry_ok_def)
  then show ?thesis
    using assms(2) Returned
    by (auto simp: create_task_finish_def Let_def
        intro!: send_status_update_sound store_artifacts_sound)
next
  case (Raised e)
  have f: "sound ex mm q" if "queues mm q = queues m q" "queue_refs mm q = queue_refs m q"
    "heap mm = heap m" "next_address mm = next_address m" for mm
    using sound_fields[OF that] assms(1) by simp
  show ?thesis
    using assms(2) Raised
    by (auto simp: create_task_finish_def get_iso_timestamp_def Let_def split: option.splits
        intro!: send_status_update_sound f)
next
  case (Interrupted e)
  with assms show ?thesis by (simp add: create_task_finish_def)
qed

lemma cancel_task_sound:
  assumes "sound ex m q" "cancel_task m i = Inr (t, m')"
  shows "sound ex m' q"
proof -
  have f: "sound ex mm q" if "queues mm q = queues m q" "queue_refs mm q = queue_refs m q"
    "heap mm = heap m" "next_address mm = next_address m" for mm
    using sound_fields[OF that] assms(1) by simp
  show ?thesis
    using assms(2)
    by (auto simp: cancel_task_def get_iso_timestamp_def Let_def split: option.splits if_splits
        intro!: send_status_update_sound f)
qed

lemma send_artifact_update_sound:
  assumes "sound ex m q" "ex \<longrightarrow> a_append a \<noteq> Some True"
  shows "sound ex (send_artifact_update m i a f) q"
proof (cases "supports_streaming m")
  case False
  with assms show ?thesis by (simp add: send_artifact_update_def)
next
  case True
  show ?thesis
  proof (cases "task_streams m i")
    case None
    with True assms show ?thesis by (simp add: send_artifact_update_def)
  next
    case (Some qs)
    show ?thesis
    proof (cases "tasks m i")
      case None
      with True Some assms show ?thesis by (simp add: send_artifact_update_def)
    next
      case (Some task)
      let ?x = "next_address m"
      let ?existing = "case t_artifacts task of None \<Rightarrow> [] | Some xs \<Rightarrow> xs"
      obtain merged updated where mg: "merge_artifact ?existing a = (merged, updated)"
        by fastforce
      obtain refs' heap' where rh:
        "(case index_of ?existing (a_index a) of
            None \<Rightarrow> (artifact_refs m i @ [?x], heap m)
          | Some j \<Rightarrow>
              if a_append a = Some True
              then (artifact_refs m i,
                    (heap m)(artifact_refs m i ! j := heap m (artifact_refs m i ! j) @ a_parts a))
              else ((artifact_refs m i)[j := ?x], heap m)) = (refs', heap')"
        by fastforce
      have hp: "prefix (heap m y) (heap' y)" for y
        using rh by (auto split: option.splits if_splits)
      have hx: "heap' = heap m" if ex
        using rh that assms(2) by (auto split: option.splits if_splits)
      define m1 where "m1 = m\<lparr>tasks := (tasks m)(i \<mapsto> task\<lparr>t_artifacts :=
            Some (if updated then merged else ?existing @ [a])\<rparr>),
          heap := heap'(?x := a_parts a), next_address := Suc ?x,
          artifact_refs := (artifact_refs m)(i := refs')\<rparr>"
      have m1: "send_artifact_update m i a f =
            put_all m1 qs (TaskArtifactUpdateEvent i a f) (Some ?x)"
        using True \<open>task_streams m i = Some qs\<close> Some mg rh
        by (simp add: send_artifact_update_def Let_def m1_def)
      have q1: "queues m1 = queues m" "queue_refs m1 = queue_refs m"
        and n1: "next_address m1 = Suc ?x"
        and h1: "heap m1 ?x = a_parts a"
        by (simp_all add: m1_def)
      have h2: "prefix (heap m y) (heap m1 y)" if "y < ?x" for y
        using that hp[of y] by (simp add: m1_def)
      have h3: "heap m1 y = heap m y" if ex "y < ?x" for y
        using that hx by (simp add: m1_def)
      have "sound ex m1 q"
        unfolding sound_def
      proof (intro allI impI)
        fix j assume "j < length (queues m1 q)"
        with assms q1 have "entry_ok ex m (queues m q ! j) (queue_refs m q j)"
          by (simp add: sound_def)
        then have "entry_ok ex m1 (queues m q ! j) (queue_refs m q j)"
          by (rule entry_ok_mono) (simp_all add: n1 h2 h3)
        then show "entry_ok ex m1 (queues m1 q ! j) (queue_refs m1 q j)" by (simp add: q1)
      qed
      moreover have "entry_ok ex m1 (TaskArtifactUpdateEvent i a f) (Some ?x)"
        by (simp add: entry_ok_def n1 h1)
      ultimately show ?thesis unfolding m1 by (rule put_all_sound)
    qed
  qed
qed

lemma subscribe_sound:
  assumes "sound ex m q" "q < next_queue m" "subscribe m i = Inr (q', m')"
  shows "sound ex m' q"
  using assms
  by (auto simp: subscribe_def Let_def sound_def entry_ok_def split: if_splits)

lemma set_push_sound:
  assumes "sound ex m q" "set_push_notification m i c = Inr (r, m')"
  shows "sound ex m' q"
  using assms
  by (auto simp: set_push_notification_def sound_def entry_ok_def split: if_splits)

lemma apply_action_sound:
  assumes "sound ex m q" "q < next_queue m" "ex \<longrightarrow> \<not> appends a"
  shows "sound ex (apply_action m a) q"
proof (cases a)
  case (Begin p)
  with assms show ?thesis by (simp add: create_task_begin_sound)
next
  case (Finish p out)
  with assms show ?thesis
    by (auto split: sum.splits intro: create_task_finish_sound)
next
  case (Cancel i)
  with assms show ?thesis by (auto split: sum.splits intro: cancel_task_sound)
next
  case (ArtifactUpdate i art f)
  with assms show ?thesis by (simp add: send_artifact_update_sound)
next
  case (Subscribe i)
  with assms show ?thesis by (auto split: sum.splits intro: subscribe_sound)
next
  case (SetPush i c)
  with assms show ?thesis by (auto split: sum.splits intro: set_push_sound)
qed

lemma run_actions_sound:
  "sound ex m q \<Longrightarrow> q < next_queue m \<Longrightarrow> (ex \<longrightarrow> no_append acts) \<Longrightarrow>
   sound ex (run_actions m acts) q"
proof (induction acts arbitrary: m)
  case Nil
  then show ?case by (simp add: run_actions_def)
next
  case (Cons a acts)
  from Cons.prems(3) have na: "ex \<longrightarrow> \<not> appends a" "ex \<longrightarrow> no_append acts"
    by (simp_all add: no_append_def)
  from apply_action_queue_grows[OF Cons.prems(2), of a]
  have "q < next_queue (apply_action m a)" by simp
  from Cons.IH[OF apply_action_sound[OF Cons.prems(1,2) na(1)] this na(2)]
  show ?case by (simp add: run_actions_def)
qed

lemma actions_of_simps [simp]:
  "actions_of [] = []"
  "actions_of (round # rounds) = map snd round @ actions_of rounds"
  "actions_of (rs @ rs') = actions_of rs @ actions_of rs'"
  by (simp_all add: actions_of_def)

lemma total_delay_simps [simp]:
  "total_delay [] = 0"
  "total_delay (round # rounds) = sum_list (map fst round) + total_delay rounds"
  by (simp_all add: total_delay_def)

lemma undisturbed_simps [simp]:
  "undisturbed [] tid"
  "undisturbed (round # rounds) tid =
     (list_all (\<lambda>a. \<not> disturbs a tid) (map snd round) \<and> undisturbed rounds tid)"
  by (simp_all add: undisturbed_def)

lemma stored_artifacts_undisturbed:
  assumes "\<not> disturbs a tid" "\<not> renews a tid"
  shows "stored_artifacts (apply_action m a) tid = stored_artifacts m tid"
proof (cases a)
  case (Begin p)
  with assms show ?thesis by (simp add: stored_artifacts_def create_task_begin_tasks_other)
next
  case (Finish p out)
  show ?thesis
  proof (cases out)
    case (Returned x)
    with Finish assms have "sp_id p \<noteq> tid" by simp
    with Finish show ?thesis
      by (auto simp: stored_artifacts_def split: sum.splits
          dest: create_task_finish_tasks_other[where tid = tid])
  next
    case (Raised e)
    with Finish show ?thesis
      by (auto simp: stored_artifacts_def create_task_finish_def get_iso_timestamp_def Let_def
          split: sum.splits option.splits)
  next
    case (Interrupted e)
    with Finish show ?thesis by (simp add: create_task_finish_def)
  qed
next
  case (Cancel i)
  then show ?thesis
    by (auto simp: stored_artifacts_def cancel_task_def get_iso_timestamp_def Let_def
        split: sum.splits option.splits if_splits)
next
  case (ArtifactUpdate i art f)
  with assms show ?thesis by (simp add: stored_artifacts_def send_artifact_update_tasks_other)
next
  case (Subscribe i)
  then show ?thesis by (auto simp: stored_artifacts_def split: sum.splits dest: subscribe_tasks)
next
  case (SetPush i c)
  then show ?thesis by (auto simp: stored_artifacts_def split: sum.splits dest: set_push_tasks)
qed

lemma suspended_manager: "fst (suspended tid m held acts) = run_actions m acts"
  unfolding run_actions_def
  by (induction acts arbitrary: m held) simp_all

lemma suspended_artifacts:
  assumes "list_all (\<lambda>a. \<not> disturbs a tid) acts" "task_artifacts m tid held = arts"
  shows "task_artifacts (fst (suspended tid m held acts)) tid
           (snd (suspended tid m held acts)) = arts"
  using assms
proof (induction acts arbitrary: m held)
  case Nil
  then show ?case by simp
next
  case (Cons a acts)
  let ?held = "if held = None \<and> renews a tid then Some (stored_artifacts m tid) else held"
  from Cons.prems(1) have d: "\<not> disturbs a tid" "list_all (\<lambda>a. \<not> disturbs a tid) acts"
    by simp_all
  have "task_artifacts (apply_action m a) tid ?held = arts"
  proof (cases held)
    case (Some xs)
    with Cons.prems(2) show ?thesis by (simp add: task_artifacts_def)
  next
    case None
    show ?thesis
    proof (cases "renews a tid")
      case True
      with None Cons.prems(2) show ?thesis by (simp add: task_artifacts_def)
    next
      case False
      with None Cons.prems(2) stored_artifacts_undisturbed[OF d(1) False, of m]
      show ?thesis by (simp add: task_artifacts_def)
    qed
  qed
  from Cons.IH[OF d(2) this] show ?case by simp
qed

lemma replay_undisturbed:
  assumes "task_artifacts m tid held = arts" "i \<le> length arts"
    and "undisturbed (take (length arts - i) rounds) tid"
  shows "replay tid t m held i rounds =
           (map (\<lambda>a. TaskArtifactUpdateEvent t a False) (drop i arts),
            run_actions m (actions_of (take (length arts - i) rounds)),
            drop (length arts - i) rounds)"
  using assms
proof (induction rounds arbitrary: m held i)
  case Nil
  then show ?case by (simp add: run_actions_def)
next
  case (Cons round rounds)
  show ?case
  proof (cases "i < length arts")
    case False
    with Cons.prems show ?thesis by (simp add: run_actions_def)
  next
    case True
    then obtain k where k: "length arts - i = Suc k" "length arts - Suc i = k"
      by (cases "length arts - i") auto
    from Cons.prems(3) k have u: "list_all (\<lambda>a. \<not> disturbs a tid) (map snd round)"
      "undisturbed (take k rounds) tid" by simp_all
    let ?m' = "run_actions m (map snd round)"
    define held' where "held' = snd (suspended tid m held (map snd round))"
    have s: "suspended tid m held (map snd round) = (?m', held')"
      using suspended_manager[of tid m held "map snd round"]
      by (simp add: held'_def prod_eq_iff)
    have st: "task_artifacts ?m' tid held' = arts"
      using suspended_artifacts[OF u(1) Cons.prems(1)]
      by (simp add: held'_def suspended_manager)
    have ih: "replay tid t ?m' held' (Suc i) rounds =
           (map (\<lambda>a. TaskArtifactUpdateEvent t a False) (drop (Suc i) arts),
            run_actions ?m' (actions_of (take k rounds)), drop k rounds)"
      using Cons.IH[OF st, of "Suc i"] True u(2) k by simp
    have d: "drop i arts = arts ! i # drop (Suc i) arts"
      using True by (simp add: Cons_nth_drop_Suc)
    show ?thesis
      using True Cons.prems(1) ih k
      by (simp add: s d run_actions_append)
  qed
qed

lemma wait_round_awake:
  "wait_round q t m e round = Awake m' e' \<Longrightarrow> m' = run_round m round"
  by (induction round arbitrary: m e)
     (auto simp: run_round_def run_actions_def split: if_splits)

lemma wait_round_timed_out:
  "wait_round q t m e round = TimedOut m' \<Longrightarrow> \<exists>k. m' = run_actions m (take k (map snd round))"
proof (induction round arbitrary: m e)
  case Nil
  then show ?case by simp
next
  case (Cons da round)
  obtain d a where da: "da = (d, a)" by (cases da)
  show ?case
  proof (cases "wait_round q t m e (da # round) = TimedOut m \<and> m' = m")
    case True
    then have "m' = run_actions m (take 0 (map snd (da # round)))" by (simp add: run_actions_def)
    then show ?thesis by blast
  next
    case False
    with Cons.prems da obtain e2 where "wait_round q t (apply_action m a) e2 round = TimedOut m'"
      by (auto split: if_splits)
    from Cons.IH[OF this] obtain k where "m' = run_actions (apply_action m a) (take k (map snd round))"
      by blast
    then have "m' = run_actions m (take (Suc k) (map snd (da # round)))"
      by (simp add: da run_actions_def)
    then show ?thesis by blast
  qed
qed

lemma wait_round_in_time:
  "e + sum_list (map fst round) < timeout_ms \<Longrightarrow>
   \<exists>e'. wait_round q t m e round = Awake (run_round m round) e' \<and>
         e' \<le> e + sum_list (map fst round)"
proof (induction round arbitrary: m e)
  case Nil
  then show ?case by (simp add: run_round_def run_actions_def)
next
  case (Cons da round)
  obtain d a where da: "da = (d, a)" by (cases da)
  have r: "run_round m (da # round) = run_round (apply_action m a) round"
    by (simp add: da run_round_def run_actions_def)
  show ?case
  proof (cases "t < length (queues m q)")
    case True
    from Cons.prems da have "e + sum_list (map fst round) < timeout_ms" by simp
    from Cons.IH[OF this, of "apply_action m a"] True da show ?thesis
      unfolding r by auto
  next
    case False
    from Cons.prems da have "(e + d) + sum_list (map fst round) < timeout_ms" by simp
    from Cons.IH[OF this, of "apply_action m a"] False da Cons.prems show ?thesis
      unfolding r by auto
  qed
qed

lemma listen_manager:
  "\<exists>performed. prefix performed (actions_of rounds) \<and>
     snd (listen q m taken e rounds) = run_actions m performed"
proof (induction rounds arbitrary: m taken e)
  case Nil
  have "prefix [] (actions_of []) \<and> snd (listen q m taken e []) = run_actions m []"
    by (simp add: run_actions_def)
  then show ?case by blast
next
  case (Cons round rounds)
  show ?case
  proof (cases "taken < length (queues m q)")
    case True
    let ?m' = "run_round m round"
    show ?thesis
    proof (cases "final (yielded m q taken)")
      case f: True
      have "prefix (map snd round) (actions_of (round # rounds)) \<and>
            snd (listen q m taken e (round # rounds)) = run_actions m (map snd round)"
        using True f by (simp add: Let_def run_round_def)
      then show ?thesis by blast
    next
      case f: False
      from Cons.IH[of ?m' "Suc taken" 0] obtain p where p: "prefix p (actions_of rounds)"
        "snd (listen q ?m' (Suc taken) 0 rounds) = run_actions ?m' p" by blast
      have "prefix (map snd round @ p) (actions_of (round # rounds)) \<and>
            snd (listen q m taken e (round # rounds)) = run_actions m (map snd round @ p)"
        using True f p
        by (simp add: Let_def case_prod_beta run_round_def run_actions_append)
      then show ?thesis by blast
    qed
  next
    case False
    show ?thesis
    proof (cases "wait_round q taken m e round")
      case (TimedOut m')
      from wait_round_timed_out[OF this] obtain k where
        k: "m' = run_actions m (take k (map snd round))" by blast
      have "prefix (take k (map snd round)) (actions_of (round # rounds))"
        by (simp add: prefix_def) (metis append_take_drop_id append.assoc)
      moreover have "snd (listen q m taken e (round # rounds)) = m'"
        using False TimedOut by simp
      ultimately show ?thesis using k by blast
    next
      case (Awake m' e')
      from wait_round_awake[OF this] have m': "m' = run_round m round" .
      from Cons.IH[of m' taken e'] obtain p where p: "prefix p (actions_of rounds)"
        "snd (listen q m' taken e' rounds) = run_actions m' p" by blast
      have "prefix (map snd round @ p) (actions_of (round # rounds)) \<and>
            snd (listen q m taken e (round # rounds)) = run_actions m (map snd round @ p)"
        using False Awake p m' by (simp add: run_round_def run_actions_append)
      then show ?thesis by blast
    qed
  qed
qed

lemma no_append_append [simp]:
  "no_append (a @ b) = (no_append a \<and> no_append b)"
  by (simp add: no_append_def)

lemma yielded_all_carries:
  assumes "sound ex m q" "taken \<le> length (queues m q)"
  shows "list_all2 carries (map (yielded m q) [taken ..< length (queues m q)])
           (drop taken (queues m q))"
proof -
  have "length (map (yielded m q) [taken ..< length (queues m q)])
          = length (drop taken (queues m q))" by simp
  moreover have "carries (map (yielded m q) [taken ..< length (queues m q)] ! j)
                   (drop taken (queues m q) ! j)"
    if "j < length (map (yielded m q) [taken ..< length (queues m q)])" for j
  proof -
    from that have j: "taken + j < length (queues m q)" by simp
    with assms(1) have "entry_ok ex m (queues m q ! (taken + j)) (queue_refs m q (taken + j))"
      by (simp add: sound_def)
    from yielded_carries[OF this] j that show ?thesis by simp
  qed
  ultimately show ?thesis by (rule list_all2_all_nthI)
qed

lemma yielded_all_exact:
  assumes "sound True m q" "taken \<le> length (queues m q)"
  shows "map (yielded m q) [taken ..< length (queues m q)] = drop taken (queues m q)"
proof (rule nth_equalityI)
  show "length (map (yielded m q) [taken ..< length (queues m q)])
          = length (drop taken (queues m q))" by simp
  fix j assume "j < length (map (yielded m q) [taken ..< length (queues m q)])"
  then have j: "taken + j < length (queues m q)" by simp
  with assms(1) have "entry_ok True m (queues m q ! (taken + j)) (queue_refs m q (taken + j))"
    by (simp add: sound_def)
  from yielded_exact[OF this] j
  show "map (yielded m q) [taken ..< length (queues m q)] ! j = drop taken (queues m q) ! j"
    by simp
qed

lemma listen_heard:
  assumes "q < next_queue m" "sound ex m q" "taken \<le> length (queues m q)"
    and "ex \<longrightarrow> no_append (actions_of rounds)"
  shows "list_all2 carries (fst (listen q m taken e rounds))
           (take (length (fst (listen q m taken e rounds)))
              (until_final (drop taken (queues (run_actions m (actions_of rounds)) q)))) \<and>
         (ex \<longrightarrow> fst (listen q m taken e rounds) =
            take (length (fst (listen q m taken e rounds)))
              (until_final (drop taken (queues (run_actions m (actions_of rounds)) q)))) \<and>
         (e + total_delay rounds < timeout_ms \<longrightarrow>
            length (fst (listen q m taken e rounds)) =
              length (until_final (drop taken (queues (run_actions m (actions_of rounds)) q))))"
  using assms
proof (induction rounds arbitrary: m taken e)
  case Nil
  from yielded_all_carries[OF Nil.prems(2,3)]
  have "list_all2 carries
          (until_final (map (yielded m q) [taken ..< length (queues m q)]))
          (until_final (drop taken (queues m q)))"
    by (rule until_final_carries)
  moreover from this have "length (until_final (map (yielded m q) [taken ..< length (queues m q)]))
      = length (until_final (drop taken (queues m q)))" by (rule list_all2_lengthD)
  moreover have "map (yielded m q) [taken ..< length (queues m q)] = drop taken (queues m q)"
    if ex using Nil.prems(2,3) that yielded_all_exact[of m q taken] by simp
  ultimately show ?case
    by (auto simp: updates_until_final_eq run_actions_def)
next
  case (Cons round rounds)
  let ?m' = "run_round m round"
  define Pl where "Pl = queues (run_actions m (actions_of (round # rounds))) q"
  have P: "queues (run_actions ?m' (actions_of rounds)) q = Pl"
    by (simp add: Pl_def run_round_def run_actions_append)
  from Cons.prems(4) have na: "ex \<longrightarrow> no_append (map snd round)"
    "ex \<longrightarrow> no_append (actions_of rounds)" by simp_all
  from run_actions_queue_grows[OF Cons.prems(1), of "map snd round"]
  have g1: "prefix (queues m q) (queues ?m' q)" "q < next_queue ?m'"
    by (simp_all add: run_round_def)
  have s1: "sound ex ?m' q"
    using run_actions_sound[OF Cons.prems(2,1) na(1)] by (simp add: run_round_def)
  from run_actions_queue_grows[OF Cons.prems(1), of "actions_of (round # rounds)"]
  have g: "prefix (queues m q) Pl" by (simp add: Pl_def)
  have td: "total_delay (round # rounds) = sum_list (map fst round) + total_delay rounds"
    by simp
  show ?case
    unfolding Pl_def[symmetric]
  proof (cases "taken < length (queues m q)")
    case True
    let ?u = "yielded m q taken"
    let ?p0 = "queues m q ! taken"
    from Cons.prems(2) True have eo: "entry_ok ex m ?p0 (queue_refs m q taken)"
      by (simp add: sound_def)
    then have c: "carries ?u ?p0" by (rule yielded_carries)
    have x: "?u = ?p0" if ex using eo that yielded_exact[of m q taken] by simp
    from g True have p0: "Pl ! taken = ?p0" "taken < length Pl"
      by (auto simp: prefix_def nth_append)
    then have dr: "drop taken Pl = ?p0 # drop (Suc taken) Pl"
      by (metis Cons_nth_drop_Suc)
    show "list_all2 carries (fst (listen q m taken e (round # rounds)))
           (take (length (fst (listen q m taken e (round # rounds))))
              (until_final (drop taken Pl))) \<and>
         (ex \<longrightarrow> fst (listen q m taken e (round # rounds)) =
            take (length (fst (listen q m taken e (round # rounds))))
              (until_final (drop taken Pl))) \<and>
         (e + total_delay (round # rounds) < timeout_ms \<longrightarrow>
            length (fst (listen q m taken e (round # rounds))) =
              length (until_final (drop taken Pl)))"
    proof (cases "final ?u")
      case f: True
      with c have "final ?p0" by (simp add: carries_final)
      with f c x True show ?thesis unfolding dr by (simp add: Let_def)
    next
      case f: False
      with c have nf: "\<not> final ?p0" by (simp add: carries_final)
      from g1(1) True have t': "Suc taken \<le> length (queues ?m' q)"
        by (auto simp: prefix_def)
      note ih = Cons.IH[OF g1(2) s1 t' na(2), of 0, unfolded P]
      have l: "listen q m taken e (round # rounds) =
          (?u # fst (listen q ?m' (Suc taken) 0 rounds), snd (listen q ?m' (Suc taken) 0 rounds))"
        using True f by (simp add: Let_def case_prod_beta)
      show ?thesis
        unfolding l dr td using ih c nf x by simp
    qed
  next
    case False
    show "list_all2 carries (fst (listen q m taken e (round # rounds)))
           (take (length (fst (listen q m taken e (round # rounds))))
              (until_final (drop taken Pl))) \<and>
         (ex \<longrightarrow> fst (listen q m taken e (round # rounds)) =
            take (length (fst (listen q m taken e (round # rounds))))
              (until_final (drop taken Pl))) \<and>
         (e + total_delay (round # rounds) < timeout_ms \<longrightarrow>
            length (fst (listen q m taken e (round # rounds))) =
              length (until_final (drop taken Pl)))"
    proof (cases "wait_round q taken m e round")
      case (TimedOut m')
      have "\<not> e + sum_list (map fst round) < timeout_ms"
      proof
        assume "e + sum_list (map fst round) < timeout_ms"
        from wait_round_in_time[OF this, of q taken m] TimedOut show False by auto
      qed
      then show ?thesis using False TimedOut by simp
    next
      case (Awake m' e')
      from wait_round_awake[OF this] have m': "m' = ?m'" .
      from g1(1) Cons.prems(3) have t': "taken \<le> length (queues ?m' q)"
        by (auto simp: prefix_def)
      note ih = Cons.IH[OF g1(2) s1 t' na(2), of e', unfolded P]
      have l: "listen q m taken e (round # rounds) = listen q ?m' taken e' rounds"
        using False Awake m' by simp
      have e': "e' + total_delay rounds < timeout_ms"
        if "e + total_delay (round # rounds) < timeout_ms"
      proof -
        from that have "e + sum_list (map fst round) < timeout_ms" by simp
        from wait_round_in_time[OF this, of q taken m] Awake
        have "e' \<le> e + sum_list (map fst round)" by auto
        with that show ?thesis by simp
      qed
      show ?thesis
        unfolding l using ih e' by blast
    qed
  qed
qed

lemma subscribe_ok:
  assumes "supports_streaming m" "tasks m tid = Some task"
  shows "subscribe m tid =
           Inr (next_queue m,
                m\<lparr>queues := (queues m)(next_queue m := []), next_queue := Suc (next_queue m),
                  task_streams := (task_streams m)(tid \<mapsto>
                    (case task_streams m tid of None \<Rightarrow> [] | Some qs \<Rightarrow> qs)
                      @ [next_queue m]),
                  queue_refs := (queue_refs m)(next_queue m := (\<lambda>i. None))\<rparr>)"
  using assms by (simp add: subscribe_def Let_def)

lemma no_begin_append [simp]:
  "no_begin (a @ b) tid = (no_begin a tid \<and> no_begin b tid)"
  by (simp add: no_begin_def)

lemma undisturbed_append [simp]:
  "undisturbed (a @ b) tid = (undisturbed a tid \<and> undisturbed b tid)"
  by (simp add: undisturbed_def)

lemma listen_timeout:
  "queues m q = [] \<Longrightarrow> timeout_ms \<le> delay \<Longrightarrow>
   listen q m 0 0 (((delay, a) # round) # rest) = ([], m)"
  by simp


lemmas stream_defs =
  get_task_stream_def subscribe_def end_stream_def unsubscribe_def run_actions_def
  run_round_def timeout_ms_def yielded_def task_artifacts_def stored_artifacts_def
  replay_manager_def streaming_manager_def next_artifact_def



subsection \<open>Routing by the host agent\<close>

lemma first_skill_match_first:
  assumes "(url, skills) \<in> set sk" "skill \<in> set skills" "sublist skill text"
  shows "\<exists>u s pre sks post. first_skill_match sk text = Some (u, s) \<and>
           sk = pre @ (u, sks) # post \<and> s \<in> set sks \<and> sublist s text \<and> no_match pre text"
  using assms
proof (induction sk)
  case Nil
  then show ?case by simp
next
  case (Cons x sk)
  obtain u0 sks0 where x: "x = (u0, sks0)" by (cases x)
  show ?case
  proof (cases "find (\<lambda>skill_id. sublist skill_id text) sks0")
    case (Some s)
    then have s: "s \<in> set sks0" "sublist s text" by (auto simp: find_Some_iff)
    have "first_skill_match (x # sk) text = Some (u0, s) \<and>
           x # sk = [] @ (u0, sks0) # sk \<and> s \<in> set sks0 \<and> sublist s text \<and> no_match [] text"
      using Some x s by (simp add: no_match_def)
    then show ?thesis by (intro exI)
  next
    case None
    then have no: "\<not> list_ex (\<lambda>s'. sublist s' text) sks0"
      by (simp add: find_None_iff list_ex_iff)
    have "(url, skills) \<noteq> x"
    proof
      assume "(url, skills) = x"
      with x have "skills = sks0" by simp
      with Cons.prems(2,3) no show False by (auto simp: list_ex_iff)
    qed
    with Cons.prems(1) have "(url, skills) \<in> set sk" by simp
    from Cons.IH[OF this Cons.prems(2,3)]
    obtain u s pre sks post where ih: "first_skill_match sk text = Some (u, s)"
      "sk = pre @ (u, sks) # post" "s \<in> set sks" "sublist s text" "no_match pre text"
      by blast
    have "first_skill_match (x # sk) text = Some (u, s) \<and>
           x # sk = (x # pre) @ (u, sks) # post \<and> s \<in> set sks \<and> sublist s text \<and>
           no_match (x # pre) text"
      using ih None no x by (simp add: no_match_def)
    then show ?thesis by (intro exI)
  qed
qed

lemma poll_closed_form:
  "poll url task answers calls =
     (case find settled (Inr task # answers) of
        None \<Rightarrow> None
      | Some outcome \<Rightarrow> Some (calls @ poll_calls url (Inr task # answers), outcome))"
proof (induction answers arbitrary: task calls)
  case Nil
  then show ?case
    by (auto simp: settled_def is_final_state_def poll_calls_def)
next
  case (Cons a answers)
  show ?case
  proof (cases "is_final_state (s_state (t_status task))")
    case True
    then show ?thesis by (auto simp: settled_def is_final_state_def poll_calls_def)
  next
    case False
    show ?thesis
    proof (cases a)
      case (Inl e)
      with False show ?thesis
        by (simp add: settled_def is_final_state_def poll_calls_def answer_id_def
            poll_interval_ms_def)
    next
      case (Inr task')
      have "poll url task (a # answers) calls =
              poll url task' answers (calls @ [Sleep 500, GetTask url (t_id task)])"
        using False Inr by (simp add: is_final_state_def poll_interval_ms_def)
      also have "\<dots> = (case find settled (Inr task' # answers) of
        None \<Rightarrow> None
      | Some outcome \<Rightarrow>
          Some ((calls @ [Sleep 500, GetTask url (t_id task)])
                  @ poll_calls url (Inr task' # answers), outcome))"
        by (rule Cons.IH)
      also have "\<dots> = (case find settled (Inr task # a # answers) of
        None \<Rightarrow> None
      | Some outcome \<Rightarrow> Some (calls @ poll_calls url (Inr task # a # answers), outcome))"
        using False Inr
        by (simp add: settled_def poll_calls_def answer_id_def split: option.splits)
      finally show ?thesis .
    qed
  qed
qed


lemma find_settled: "list_ex settled xs \<Longrightarrow> \<exists>outcome. find settled xs = Some outcome"
  by (induction xs) auto

lemma response_text_cases:
  "(\<forall>task msg. s_state (t_status task) = COMPLETED \<and> s_message (t_status task) = Some msg \<longrightarrow>
      response_text task = join '' '' (part_texts (m_parts msg))) \<and>
   (\<forall>task. s_state (t_status task) = COMPLETED \<and> s_message (t_status task) = None \<and>
        artifacts_of task \<noteq> [] \<longrightarrow>
      response_text task =
        join [CHR ''\<newline>'', CHR ''\<newline>'']
          (concat (map (\<lambda>a. part_texts (a_parts a)) (artifacts_of task)))) \<and>
   (\<forall>task. s_state (t_status task) = COMPLETED \<and> s_message (t_status task) = None \<and>
        artifacts_of task = [] \<longrightarrow>
      response_text task = ''Task completed successfully, but no response was provided.'') \<and>
   (\<forall>task. s_state (t_status task) \<noteq> COMPLETED \<longrightarrow>
      response_text task =
        ''Task failed: '' @
          (case s_message (t_status task) of
             Some msg \<Rightarrow> join '' '' (part_texts (m_parts msg))
           | None \<Rightarrow> ''Unknown error''))"
  by (auto simp: response_text_def extract_message_text_def artifacts_of_def
      split: option.splits list.splits)

text \<open>
  C9, as the code has it, for every case mapping \<open>lower\<close>. When a skill id of a
  connected remote occurs in the lowered message, \<^verbatim>\<open>_process_message\<close> picks the first remote, in connection order, that has
  such a skill id, and sends the message as a task to it. If the answers of that remote
  never reach an exception or a task in a final state, the call does not return.
  Otherwise it returns normally: it sleeps 500 ms and calls \<^verbatim>\<open>get_task\<close> once for every
  answer that is a task in no final state, and it returns the text of the first settled
  answer: for an exception \<^verbatim>\<open>Error processing task with remote agent: <text>\<close>; for a
  COMPLETED task the text parts of the status message joined by a space when there is a
  status message, else the text parts of all artifacts in order joined by a blank line
  when there is an artifact, else a fixed notice; for a FAILED or CANCELED task
  \<^verbatim>\<open>Task failed: \<close> and the message text or \<^verbatim>\<open>Unknown error\<close>.
\<close>

theorem route_to_matched_remote:
  assumes "registry_ok h"
    and "(url, skills) \<in> set (agent_skills h)" and "skill \<in> set skills"
    and "sublist skill (lower message)"
  shows "(\<exists>u sk pre sks post conn.
           agent_skills h = pre @ (u, sks) # post \<and> no_match pre (lower message) \<and>
           sk \<in> set sks \<and> sublist sk (lower message) \<and>
           map_of (remote_agents h) u = Some conn \<and>
           (\<not> settles conn \<longrightarrow> process_message lower h message session_id = None) \<and>
           (settles conn \<longrightarrow>
              (\<exists>outcome. find settled (rc_send_task conn # rc_get_task conn) = Some outcome \<and>
                 process_message lower h message session_id =
                   Some (SendTask u message session_id
                           # poll_calls u (rc_send_task conn # rc_get_task conn),
                         Inr (outcome_text outcome))))) \<and>
         (\<forall>task msg. s_state (t_status task) = COMPLETED \<and>
              s_message (t_status task) = Some msg \<longrightarrow>
            response_text task = join '' '' (part_texts (m_parts msg))) \<and>
         (\<forall>task. s_state (t_status task) = COMPLETED \<and> s_message (t_status task) = None \<and>
              artifacts_of task \<noteq> [] \<longrightarrow>
            response_text task =
              join [CHR ''\<newline>'', CHR ''\<newline>'']
                (concat (map (\<lambda>a. part_texts (a_parts a)) (artifacts_of task)))) \<and>
         (\<forall>task. s_state (t_status task) = COMPLETED \<and> s_message (t_status task) = None \<and>
              artifacts_of task = [] \<longrightarrow>
            response_text task =
              ''Task completed successfully, but no response was provided.'') \<and>
         (\<forall>task. s_state (t_status task) \<noteq> COMPLETED \<longrightarrow>
            response_text task =
              ''Task failed: '' @
                (case s_message (t_status task) of
                   Some msg \<Rightarrow> join '' '' (part_texts (m_parts msg))
                 | None \<Rightarrow> ''Unknown error''))"
proof -
  from first_skill_match_first[OF assms(2-4)]
  obtain u sk pre sks post where m:
    "first_skill_match (agent_skills h) (lower message) = Some (u, sk)"
    "agent_skills h = pre @ (u, sks) # post" "sk \<in> set sks" "sublist sk (lower message)"
    "no_match pre (lower message)"
    by blast
  have ex: "extract_skill_info lower h message = (Some u, Some sk)"
    by (simp add: extract_skill_info_def m(1))
  have "u \<in> set (map fst (agent_skills h))" by (simp add: m(2))
  moreover have "map fst (agent_skills h) = map fst (remote_agents h)"
    using assms(1) by (simp only: registry_ok_def)
  ultimately have uin: "u \<in> set (map fst (remote_agents h))" by (simp only:)
  then have ne: "remote_agents h \<noteq> []" by auto
  have une: "u \<noteq> []"
  proof
    assume "u = []"
    with uin have "[] \<in> set (map fst (remote_agents h))" by (simp only:)
    with assms(1) show False unfolding registry_ok_def by blast
  qed
  from uin have "map_of (remote_agents h) u \<noteq> None"
    by (simp add: map_of_eq_None_iff)
  then obtain conn where conn: "map_of (remote_agents h) u = Some conn" by auto
  let ?answers = "rc_send_task conn # rc_get_task conn"
  have pm: "process_message lower h message session_id =
             (case find settled ?answers of
                None \<Rightarrow> None
              | Some outcome \<Rightarrow>
                  Some (SendTask u message session_id # poll_calls u ?answers,
                        Inr (outcome_text outcome)))"
  proof (cases "rc_send_task conn")
    case (Inl e)
    with ne une ex conn show ?thesis
      by (simp add: process_message_def poll_calls_def settled_def outcome_text_def)
  next
    case (Inr task)
    show ?thesis
    proof (cases "find settled (Inr task # rc_get_task conn)")
      case None
      then have "poll u task (rc_get_task conn) [SendTask u message session_id] = None"
        by (simp add: poll_closed_form)
      with Inr None ne une ex conn show ?thesis
        by (simp add: process_message_def)
    next
      case (Some outcome)
      then have "poll u task (rc_get_task conn) [SendTask u message session_id] =
            Some ([SendTask u message session_id]
                    @ poll_calls u (Inr task # rc_get_task conn), outcome)"
        by (simp add: poll_closed_form)
      with Inr Some ne une ex conn show ?thesis
        by (cases outcome) (simp_all add: process_message_def outcome_text_def)
    qed
  qed
  have unsettled: "process_message lower h message session_id = None" if "\<not> settles conn"
  proof -
    from that have "find settled ?answers = None"
      unfolding settles_def by (simp only: find_None_iff list_ex_iff) blast
    then show ?thesis by (simp only: pm option.case)
  qed
  have settled: "\<exists>outcome. find settled ?answers = Some outcome \<and>
                 process_message lower h message session_id =
                   Some (SendTask u message session_id # poll_calls u ?answers,
                         Inr (outcome_text outcome))" if "settles conn"
  proof -
    from that obtain outcome where "find settled ?answers = Some outcome"
      unfolding settles_def using find_settled by blast
    then show ?thesis by (simp only: pm option.case) blast
  qed
  show ?thesis
    using m(2-5) conn unsettled settled response_text_cases by blast
qed


lemmas host_defs =
  process_message_def extract_skill_info_def ascii_lower_def ascii_lower_char_def sublist_Cons_right
  demo_host_def remote_task_def response_text_def poll_interval_ms_def demo_artifact_def

theorem route_to_matched_remote_witness:
  "registry_ok working_host \<and>
   (''http://remote'', [''aws-to-gcp'']) \<in> set (agent_skills working_host) \<and>
   sublist ''aws-to-gcp'' (ascii_lower ''Please AWS-to-GCP this snippet'') \<and>
   list_all (\<lambda>entry. settles (snd entry)) (remote_agents working_host) \<and>
   process_message ascii_lower working_host ''Please AWS-to-GCP this snippet'' None =
     Some ([SendTask ''http://remote'' ''Please AWS-to-GCP this snippet'' None,
            Sleep 500, GetTask ''http://remote'' ''r1'',
            Sleep 500, GetTask ''http://remote'' ''r1''],
           Inr (''converted'' @ [CHR ''\<newline>'', CHR ''\<newline>''] @ ''done''))"
proof -
  have h: "registry_ok working_host"
    "(''http://remote'', [''aws-to-gcp'']) \<in> set (agent_skills working_host)"
    "''aws-to-gcp'' \<in> set [''aws-to-gcp'']"
    "sublist ''aws-to-gcp'' (ascii_lower ''Please AWS-to-GCP this snippet'')"
    by (simp_all add: working_host_def registry_ok_def host_defs)
  have st: "list_all (\<lambda>entry. settles (snd entry)) (remote_agents working_host)"
    by (simp add: working_host_def settles_def settled_def is_final_state_def host_defs)
  from route_to_matched_remote[where lower = ascii_lower
      and message = "''Please AWS-to-GCP this snippet''" and session_id = None, OF h]
  have "process_message ascii_lower working_host ''Please AWS-to-GCP this snippet'' None = None \<or>
        (\<exists>calls reply. process_message ascii_lower working_host ''Please AWS-to-GCP this snippet'' None
           = Some (calls, Inr reply))"
    by blast
  moreover have "process_message ascii_lower working_host ''Please AWS-to-GCP this snippet'' None =
     Some ([SendTask ''http://remote'' ''Please AWS-to-GCP this snippet'' None,
            Sleep 500, GetTask ''http://remote'' ''r1'',
            Sleep 500, GetTask ''http://remote'' ''r1''],
           Inr (''converted'' @ [CHR ''\<newline>'', CHR ''\<newline>''] @ ''done''))"
    by (simp add: working_host_def host_defs)
  ultimately show ?thesis using h st by simp
qed

text \<open>
  C9 as stated fails for a COMPLETED task with neither status message nor artifact: the
  text parts of its artifacts joined by blank lines are the empty string, and the host
  returns a fixed notice.
\<close>

theorem route_no_response_counterexample:
  "sublist ''aws-to-gcp'' (ascii_lower ''please aws-to-gcp this snippet'') \<and>
   process_message ascii_lower silent_host ''please aws-to-gcp this snippet'' None =
     Some ([SendTask ''http://remote'' ''please aws-to-gcp this snippet'' None],
           Inr ''Task completed successfully, but no response was provided.'') \<and>
   join [CHR ''\<newline>'', CHR ''\<newline>'']
     (concat (map (\<lambda>a. part_texts (a_parts a))
                (artifacts_of (remote_task COMPLETED None [])))) = []"
  by (simp add: silent_host_def host_defs artifacts_of_def)

subsection \<open>Frames the client does not know\<close>

lemma dispatch_unknown:
  "unknown_object event_json \<Longrightarrow> dispatch_event codec event_json = ([], None)"
  by (cases event_json) (simp_all add: unknown_object_def dispatch_event_def)

text \<open>
  C10. When the reader takes a frame off its buffer whose data line decodes to a JSON
  object with neither a \<^verbatim>\<open>status\<close> nor an \<^verbatim>\<open>artifact\<close> key, it yields no event and
  raises nothing for it, and goes on with the rest of the buffer exactly as if the frame
  had not been there. The object of the server's error frame, whose one key is
  \<^verbatim>\<open>error\<close>, is such an object.
\<close>

theorem unknown_frame_ignored:
  assumes "split_blank buffer = Some (event, rest)"
    and "event_data_of event = Some event_data" and "event_data \<noteq> []"
    and "json_loads codec event_data = Some event_json"
    and "unknown_object event_json"
  shows "process_event codec event = ([], None) \<and>
         drain codec buffer = drain codec rest \<and>
         unknown_object (error_event_json (ErrorFrame code message))"
proof -
  have p: "process_event codec event = ([], None)"
    using assms(2-5) by (simp add: process_event_def dispatch_unknown)
  have "drain codec buffer = drain codec rest"
    by (subst drain.simps) (simp add: assms(1) p)
  moreover have "unknown_object (error_event_json (ErrorFrame code message))"
    by (simp add: unknown_object_def error_event_json_def)
  ultimately show ?thesis using p by simp
qed

theorem unknown_frame_ignored_witness:
  "split_blank (''data: '' @ demo_error_text @ [CHR ''\<newline>'', CHR ''\<newline>''])
     = Some (''data: '' @ demo_error_text, []) \<and>
   event_data_of (''data: '' @ demo_error_text) = Some demo_error_text \<and>
   demo_error_text \<noteq> [] \<and>
   json_loads demo_codec demo_error_text
     = Some (error_event_json (ErrorFrame (- 32603) ''Streaming error: boom'')) \<and>
   unknown_object (error_event_json (ErrorFrame (- 32603) ''Streaming error: boom'')) \<and>
   process_event demo_codec (''data: '' @ demo_error_text) = ([], None) \<and>
   sse_events demo_codec [''data: '' @ demo_error_text @ [CHR ''\<newline>'', CHR ''\<newline>'']]
     = ([], None)"
proof -
  have h: "split_blank (''data: '' @ demo_error_text @ [CHR ''\<newline>'', CHR ''\<newline>''])
     = Some (''data: '' @ demo_error_text, [])"
    "event_data_of (''data: '' @ demo_error_text) = Some demo_error_text"
    "demo_error_text \<noteq> []"
    "json_loads demo_codec demo_error_text
     = Some (error_event_json (ErrorFrame (- 32603) ''Streaming error: boom''))"
    "unknown_object (error_event_json (ErrorFrame (- 32603) ''Streaming error: boom''))"
    by (simp_all add: demo_error_text_def demo_codec_def event_data_of_def strip_def
        is_space_def is_space2_def is_space3_def unknown_object_def error_event_json_def)
  from unknown_frame_ignored[OF h]
  have 1: "process_event demo_codec (''data: '' @ demo_error_text) = ([], None)"
    and 2: "drain demo_codec (''data: '' @ demo_error_text @ [CHR ''\<newline>'', CHR ''\<newline>''])
      = drain demo_codec []"
    by simp_all
  have 3: "drain demo_codec [] = ([], None, [])"
    by (subst drain.simps) simp
  show ?thesis using h 1 2 3 by (simp add: sse_events_def)
qed

end
